theory Spec2Isabelle
  imports Complex_Main
begin

section \<open>JavaScript strings and values\<close>

text \<open>
  A JavaScript string is a sequence of UTF-16 code units. A code unit is modelled by its
  number, so every JavaScript string is a list of naturals below 65536; the functions
  below never look at a code unit except to compare it with the ASCII characters and the
  white space characters that the regular expressions of the source name.
\<close>

type_synonym jsstring = "nat list"

definition js :: "string \<Rightarrow> jsstring" where
  "js s = map of_char s"

definition caret :: nat where "caret = 94"
definition star :: nat where "star = 42"
definition lparen :: nat where "lparen = 40"
definition rparen :: nat where "rparen = 41"
definition eq_sign :: nat where "eq_sign = 61"
definition minus_sign :: nat where "minus_sign = 45"
definition space_char :: nat where "space_char = 32"

text \<open>
  The class \<^verbatim>\<open>\s\<close> of a JavaScript regular expression, which is also what
  \<^verbatim>\<open>String.prototype.trim\<close> strips: the WhiteSpace and LineTerminator code points
  of ECMAScript (TAB, LF, VT, FF, CR, SP, NBSP, U+1680, U+2000..U+200A, LS, PS, U+202F,
  U+205F, U+3000 and the byte order mark U+FEFF).
\<close>

definition is_space :: "nat \<Rightarrow> bool" where
  "is_space c \<longleftrightarrow>
     (9 \<le> c \<and> c \<le> 13) \<or> c = 32 \<or> c = 160 \<or> c = 5760 \<or> (8192 \<le> c \<and> c \<le> 8202) \<or>
     c = 8232 \<or> c = 8233 \<or> c = 8239 \<or> c = 8287 \<or> c = 12288 \<or> c = 65279"

text \<open>\<^verbatim>\<open>\d\<close>, \<^verbatim>\<open>[a-zA-Z]\<close> and \<^verbatim>\<open>[a-zA-Z0-9]\<close>.\<close>

definition is_digit :: "nat \<Rightarrow> bool" where
  "is_digit c \<longleftrightarrow> 48 \<le> c \<and> c \<le> 57"

definition is_letter :: "nat \<Rightarrow> bool" where
  "is_letter c \<longleftrightarrow> (97 \<le> c \<and> c \<le> 122) \<or> (65 \<le> c \<and> c \<le> 90)"

definition is_alnum :: "nat \<Rightarrow> bool" where
  "is_alnum c \<longleftrightarrow> is_letter c \<or> is_digit c"

text \<open>
  The values a JavaScript variable can hold, by the result of \<^verbatim>\<open>typeof\<close>. Numbers are
  kept abstract (\<open>'n\<close>); objects, symbols and functions are identified by a reference.
\<close>

datatype 'n jsval =
    JSUndefined
  | JSNull
  | JSBoolean bool
  | JSNumber 'n
  | JSBigInt int
  | JSString jsstring
  | JSSymbol nat
  | JSObject nat
  | JSFunction nat

fun typeof :: "'n jsval \<Rightarrow> string" where
  "typeof JSUndefined = ''undefined''"
| "typeof JSNull = ''object''"
| "typeof (JSBoolean b) = ''boolean''"
| "typeof (JSNumber n) = ''number''"
| "typeof (JSBigInt i) = ''bigint''"
| "typeof (JSString s) = ''string''"
| "typeof (JSSymbol r) = ''symbol''"
| "typeof (JSObject r) = ''object''"
| "typeof (JSFunction r) = ''function''"

section \<open>The parser: \<^verbatim>\<open>parseExpression\<close>\<close>

text \<open>\<^verbatim>\<open>expr.trim()\<close>: white space is removed from both ends.\<close>

definition rstrip :: "jsstring \<Rightarrow> jsstring" where
  "rstrip s = rev (dropWhile is_space (rev s))"

definition trim :: "jsstring \<Rightarrow> jsstring" where
  "trim s = rstrip (dropWhile is_space s)"

text \<open>
  \<^verbatim>\<open>\s*\<close> followed by one character of a class \<open>P\<close> that holds no white space, tried
  at the head of \<open>s\<close>. The star is greedy: it takes the whole run of white space, and
  a shorter run cannot help, since the character after it would be white space. The
  result is the run, the character and the rest of the input.
\<close>

definition spaces_then :: "(nat \<Rightarrow> bool) \<Rightarrow> jsstring \<Rightarrow> (jsstring \<times> nat \<times> jsstring) option" where
  "spaces_then P s =
     (case dropWhile is_space s of
        [] \<Rightarrow> None
      | c # r \<Rightarrow> if P c then Some (takeWhile is_space s, c, r) else None)"

text \<open>\<^verbatim>\<open>parsed.replace(/\^/g, "**")\<close>\<close>

fun replace_caret :: "jsstring \<Rightarrow> jsstring" where
  "replace_caret [] = []"
| "replace_caret (c # s) =
     (if c = caret then star # star # replace_caret s else c # replace_caret s)"

text \<open>
  \<^verbatim>\<open>parsed.replace(/(\d)([a-zA-Z])/g, "$1*$2")\<close>. A global replace scans from the left;
  where the expression matches, the replacement is written and the scan goes on after
  the match, otherwise one character is copied.
\<close>

fun mul_digit_letter :: "jsstring \<Rightarrow> jsstring" where
  "mul_digit_letter (d # l # s) =
     (if is_digit d \<and> is_letter l then d # star # l # mul_digit_letter s
      else d # mul_digit_letter (l # s))"
| "mul_digit_letter s = s"

text \<open>\<^verbatim>\<open>parsed.replace(/(\))(\s*[a-zA-Z0-9])/g, "$1*$2")\<close>\<close>

function mul_paren_alnum :: "jsstring \<Rightarrow> jsstring" where
  "mul_paren_alnum [] = []"
| "mul_paren_alnum (c # s) =
     (if c = rparen then
        (case spaces_then is_alnum s of
           Some (ws, a, r) \<Rightarrow> c # star # ws @ a # mul_paren_alnum r
         | None \<Rightarrow> c # mul_paren_alnum s)
      else c # mul_paren_alnum s)"
  by pat_completeness auto

termination
proof (relation "measure length")
  show "wf (measure length)" by simp
next
  fix c s x ws y a r
  assume "spaces_then is_alnum s = Some x" and "(ws, y) = x" and "(a, r) = y"
  then have "dropWhile is_space s = a # r"
    by (auto simp: spaces_then_def split: list.splits if_splits)
  then have "length (a # r) \<le> length s"
    by (metis length_dropWhile_le)
  then show "(r, c # s) \<in> measure length" by simp
qed (simp_all)

text \<open>
  \<^verbatim>\<open>parsed.replace(/(\d)(\s*\()/g, "$1*(")\<close>: the replacement does not use the second
  group, so white space between the digit and the parenthesis is dropped.
\<close>

function mul_digit_paren :: "jsstring \<Rightarrow> jsstring" where
  "mul_digit_paren [] = []"
| "mul_digit_paren (c # s) =
     (if is_digit c then
        (case spaces_then (\<lambda>x. x = lparen) s of
           Some (ws, a, r) \<Rightarrow> c # star # lparen # mul_digit_paren r
         | None \<Rightarrow> c # mul_digit_paren s)
      else c # mul_digit_paren s)"
  by pat_completeness auto

termination
proof (relation "measure length")
  show "wf (measure length)" by simp
next
  fix c s x ws y a r
  assume "spaces_then (\<lambda>x. x = lparen) s = Some x" and "(ws, y) = x" and "(a, r) = y"
  then have "dropWhile is_space s = a # r"
    by (auto simp: spaces_then_def split: list.splits if_splits)
  then have "length (a # r) \<le> length s"
    by (metis length_dropWhile_le)
  then show "(r, c # s) \<in> measure length" by simp
qed (simp_all)

text \<open>\<^verbatim>\<open>parsed.replace(/\)\s*\(/g, ")*(")\<close>\<close>

function mul_paren_paren :: "jsstring \<Rightarrow> jsstring" where
  "mul_paren_paren [] = []"
| "mul_paren_paren (c # s) =
     (if c = rparen then
        (case spaces_then (\<lambda>x. x = lparen) s of
           Some (ws, a, r) \<Rightarrow> rparen # star # lparen # mul_paren_paren r
         | None \<Rightarrow> c # mul_paren_paren s)
      else c # mul_paren_paren s)"
  by pat_completeness auto

termination
proof (relation "measure length")
  show "wf (measure length)" by simp
next
  fix c s x ws y a r
  assume "spaces_then (\<lambda>x. x = lparen) s = Some x" and "(ws, y) = x" and "(a, r) = y"
  then have "dropWhile is_space s = a # r"
    by (auto simp: spaces_then_def split: list.splits if_splits)
  then have "length (a # r) \<le> length s"
    by (metis length_dropWhile_le)
  then show "(r, c # s) \<in> measure length" by simp
qed (simp_all)

text \<open>\<^verbatim>\<open>parsed.replace(/\s+/g, " ")\<close>: every maximal run of white space becomes one space.\<close>

function collapse_spaces :: "jsstring \<Rightarrow> jsstring" where
  "collapse_spaces [] = []"
| "collapse_spaces (c # s) =
     (if is_space c then space_char # collapse_spaces (dropWhile is_space s)
      else c # collapse_spaces s)"
  by pat_completeness auto

termination
proof (relation "measure length")
  show "wf (measure length)" by simp
next
  fix c s
  have "length (dropWhile is_space s) \<le> length s"
    by (rule length_dropWhile_le)
  then show "(dropWhile is_space s, c # s) \<in> measure length" by simp
qed simp

text \<open>
  \<^verbatim>\<open>parsed.replace(/\s*=\s*/, "-(")\<close>: no \<^verbatim>\<open>g\<close> flag, so the leftmost match only.
  The expression is tried at each position in turn; a string without a match is
  returned as it is.
\<close>

fun replace_first_eq :: "jsstring \<Rightarrow> jsstring" where
  "replace_first_eq [] = []"
| "replace_first_eq (c # s) =
     (case spaces_then (\<lambda>x. x = eq_sign) (c # s) of
        Some (ws, e, r) \<Rightarrow> minus_sign # lparen # dropWhile is_space r
      | None \<Rightarrow> c # replace_first_eq s)"

text \<open>Lines 20 to 26 of the source: the rewrites before the test for an equation.\<close>

definition rewrite_ops :: "jsstring \<Rightarrow> jsstring" where
  "rewrite_ops s =
     collapse_spaces (mul_paren_paren (mul_digit_paren (mul_paren_alnum
       (mul_digit_letter (replace_caret (trim s))))))"

text \<open>The body of \<^verbatim>\<open>parseExpression\<close> on a string.\<close>

definition parseString :: "jsstring \<Rightarrow> jsstring" where
  "parseString s =
     (let parsed = rewrite_ops s
      in if eq_sign \<in> set parsed then replace_first_eq parsed @ [rparen] else parsed)"

definition parseExpression :: "'n jsval \<Rightarrow> 'n jsval" where
  "parseExpression expr =
     (if typeof expr \<noteq> ''string'' then expr
      else (case expr of JSString s \<Rightarrow> JSString (parseString s) | _ \<Rightarrow> expr))"

section \<open>Strings in the form the engine accepts\<close>

text \<open>
  The places where \<^verbatim>\<open>parseExpression\<close> writes a multiplication sign: a digit followed by
  a letter, a closing parenthesis followed (after optional white space) by a letter or
  digit, a digit followed (after optional white space) by an opening parenthesis, and a
  closing parenthesis followed (after optional white space) by an opening one.
\<close>

fun has_digit_letter :: "jsstring \<Rightarrow> bool" where
  "has_digit_letter (d # l # s) \<longleftrightarrow> (is_digit d \<and> is_letter l) \<or> has_digit_letter (l # s)"
| "has_digit_letter s \<longleftrightarrow> False"

fun has_paren_alnum :: "jsstring \<Rightarrow> bool" where
  "has_paren_alnum [] \<longleftrightarrow> False"
| "has_paren_alnum (c # s) \<longleftrightarrow> (c = rparen \<and> spaces_then is_alnum s \<noteq> None) \<or> has_paren_alnum s"

fun has_digit_paren :: "jsstring \<Rightarrow> bool" where
  "has_digit_paren [] \<longleftrightarrow> False"
| "has_digit_paren (c # s) \<longleftrightarrow>
     (is_digit c \<and> spaces_then (\<lambda>x. x = lparen) s \<noteq> None) \<or> has_digit_paren s"

fun has_paren_paren :: "jsstring \<Rightarrow> bool" where
  "has_paren_paren [] \<longleftrightarrow> False"
| "has_paren_paren (c # s) \<longleftrightarrow>
     (c = rparen \<and> spaces_then (\<lambda>x. x = lparen) s \<noteq> None) \<or> has_paren_paren s"

definition implicit_mul :: "jsstring \<Rightarrow> bool" where
  "implicit_mul s \<longleftrightarrow>
     has_digit_letter s \<or> has_paren_alnum s \<or> has_digit_paren s \<or> has_paren_paren s"

text \<open>No redundant white space: none at either end, and no two white space characters in a row.\<close>

fun double_space :: "jsstring \<Rightarrow> bool" where
  "double_space (a # b # s) \<longleftrightarrow> (is_space a \<and> is_space b) \<or> double_space (b # s)"
| "double_space s \<longleftrightarrow> False"

definition trimmed :: "jsstring \<Rightarrow> bool" where
  "trimmed s \<longleftrightarrow> s = [] \<or> (\<not> is_space (hd s) \<and> \<not> is_space (last s))"

text \<open>
  The engine-acceptable form of claim C7, in the claim's words: no \<open>^\<close>, no \<open>=\<close>, no
  implicit multiplication, no redundant white space.
\<close>

definition engine_form :: "jsstring \<Rightarrow> bool" where
  "engine_form s \<longleftrightarrow>
     caret \<notin> set s \<and> eq_sign \<notin> set s \<and> \<not> implicit_mul s \<and> trimmed s \<and> \<not> double_space s"

text \<open>The characters that are neither white space nor part of an operator the parser writes.\<close>

definition plain :: "nat \<Rightarrow> bool" where
  "plain c \<longleftrightarrow> c \<noteq> star \<and> c \<noteq> caret \<and> \<not> is_space c"

section \<open>The rewrites of the operators in one pass\<close>

text \<open>
  Claim C6 speaks of the places where a multiplication is implied. \<open>site c s\<close> holds
  when such a place follows the character \<open>c\<close>, where \<open>s\<close> is the rest of the string
  after \<open>c\<close>: \<open>c\<close> is a digit and a letter comes next; or \<open>c\<close> is a closing
  parenthesis and, after optional white space, a letter or digit comes next; or \<open>c\<close> is a
  digit or a closing parenthesis and, after optional white space, an opening parenthesis
  comes next. \<open>count_sites\<close> counts the places of a string.
\<close>

definition site :: "nat \<Rightarrow> jsstring \<Rightarrow> bool" where
  "site c s \<longleftrightarrow>
     (is_digit c \<and> s \<noteq> [] \<and> is_letter (hd s)) \<or>
     (c = rparen \<and> spaces_then is_alnum s \<noteq> None) \<or>
     (is_digit c \<and> spaces_then (\<lambda>x. x = lparen) s \<noteq> None) \<or>
     (c = rparen \<and> spaces_then (\<lambda>x. x = lparen) s \<noteq> None)"

fun count_sites :: "jsstring \<Rightarrow> nat" where
  "count_sites [] = 0"
| "count_sites (c # s) = (if site c s then 1 else 0) + count_sites s"

text \<open>
  The rewrite that claim C6 describes, as one pass from the left: \<open>^\<close> becomes \<open>**\<close>;
  one \<open>*\<close> is written after a character that a place follows; every other character is
  copied. Before an opening parenthesis the \<open>*\<close> takes the place of the white space, as
  the replacement texts \<^verbatim>\<open>"$1*("\<close> and \<^verbatim>\<open>")*("\<close> of the source do.
\<close>

function insert_markers :: "jsstring \<Rightarrow> jsstring" where
  "insert_markers [] = []"
| "insert_markers (c # s) =
     (if c = caret then star # star # insert_markers s
      else if site c s then
        c # star # insert_markers
          (if spaces_then (\<lambda>x. x = lparen) s \<noteq> None then dropWhile is_space s else s)
      else c # insert_markers s)"
  by pat_completeness auto

termination
proof (relation "measure length")
  show "wf (measure length)" by simp
next
  fix c s
  have "length (dropWhile is_space s) \<le> length s"
    by (rule length_dropWhile_le)
  then show "(if spaces_then (\<lambda>x. x = lparen) s \<noteq> None then dropWhile is_space s else s, c # s)
      \<in> measure length"
    by simp
qed simp_all

text \<open>Lines 21 to 25 of the source, which are compared with the single pass.\<close>

definition marker_steps :: "jsstring \<Rightarrow> jsstring" where
  "marker_steps t =
     mul_paren_paren (mul_digit_paren (mul_paren_alnum (mul_digit_letter (replace_caret t))))"

section \<open>The algebra engine\<close>

text \<open>
  SymPy and NumPy run inside Pyodide and are not part of the repository. The model takes
  them as a parameter: a record of the functions that the two Python scripts of the source
  call, each returning a value or raising. \<open>'e\<close> is the type of SymPy expressions and
  \<open>'r\<close> the type of the raw values of the second version of the bridge.

  A Python exception is caught by \<^verbatim>\<open>except Exception\<close> only if its class derives from
  \<^verbatim>\<open>Exception\<close>; \<^verbatim>\<open>KeyboardInterrupt\<close> and \<^verbatim>\<open>SystemExit\<close> do not. The string is
  \<^verbatim>\<open>str(e)\<close>.
\<close>

datatype py_exn = PyException jsstring | PyBaseException jsstring

fun py_str :: "py_exn \<Rightarrow> jsstring" where
  "py_str (PyException m) = m"
| "py_str (PyBaseException m) = m"

fun is_Exception :: "py_exn \<Rightarrow> bool" where
  "is_Exception (PyException m) \<longleftrightarrow> True"
| "is_Exception (PyBaseException m) \<longleftrightarrow> False"

text \<open>
  A double: a finite value or one of the three others. A finite double is modelled by
  the real number it stands for; the two zeros are not told apart.
\<close>

datatype double = Finite real | PosInf | NegInf | NaN

text \<open>
  The arithmetic of doubles: IEEE 754 binary64, round to nearest, ties to even. Around a
  number \<open>x\<close> with \<open>2 powi e \<le> \<bar>x\<bar> < 2 powi (e + 1)\<close> the doubles are the multiples of
  \<open>2 powi (e - 52)\<close>, and the multiples of \<open>2 powi (- 1074)\<close> below \<open>2 powi (- 1022)\<close>.
  \<open>round_double x\<close> is the nearest of them, at a tie the one with the even multiplier,
  and an infinity where that is \<open>2 powi 1024\<close> or more. \<open>is_double\<close> holds of the reals
  that are doubles.
\<close>

definition round_half_even :: "real \<Rightarrow> int" where
  "round_half_even m =
     (let f = \<lfloor>m\<rfloor>
      in if m - of_int f < 1 / 2 then f
         else if 1 / 2 < m - of_int f then f + 1
         else if even f then f else f + 1)"

definition round_double :: "real \<Rightarrow> double" where
  "round_double x =
     (if x = 0 then Finite 0
      else
        let e = max \<lfloor>log 2 \<bar>x\<bar>\<rfloor> (- 1022);
            ulp = 2 powi (e - 52);
            r = of_int (round_half_even (x / ulp)) * ulp
        in if 2 powi 1024 \<le> r then PosInf
           else if r \<le> - (2 powi 1024) then NegInf
           else Finite r)"

definition is_double :: "real \<Rightarrow> bool" where
  "is_double x \<longleftrightarrow> round_double x = Finite x"

text \<open>
  Sum and product of two doubles, and the quotient of a double by a positive finite
  one: the exact result is rounded; an infinity stays one, and \<open>inf - inf\<close> and
  \<open>0 * inf\<close> are \<open>nan\<close>.
\<close>

fun dneg :: "double \<Rightarrow> double" where
  "dneg (Finite a) = Finite (- a)"
| "dneg PosInf = NegInf"
| "dneg NegInf = PosInf"
| "dneg NaN = NaN"

fun dadd :: "double \<Rightarrow> double \<Rightarrow> double" where
  "dadd (Finite a) (Finite b) = round_double (a + b)"
| "dadd (Finite a) y = y"
| "dadd x (Finite b) = x"
| "dadd PosInf PosInf = PosInf"
| "dadd NegInf NegInf = NegInf"
| "dadd x y = NaN"

fun dmul :: "double \<Rightarrow> double \<Rightarrow> double" where
  "dmul (Finite a) (Finite b) = round_double (a * b)"
| "dmul NaN y = NaN"
| "dmul x NaN = NaN"
| "dmul (Finite a) y = (if a = 0 then NaN else if 0 < a then y else dneg y)"
| "dmul x (Finite b) = (if b = 0 then NaN else if 0 < b then x else dneg x)"
| "dmul x y = (if x = y then PosInf else NegInf)"

fun ddiv :: "double \<Rightarrow> real \<Rightarrow> double" where
  "ddiv (Finite a) d = round_double (a / d)"
| "ddiv x d = x"

text \<open>
  An element \<^verbatim>\<open>v\<close> of the array that the compiled function returns: \<^verbatim>\<open>float(v)\<close>
  gives a double, or raises (a value that is not real).
\<close>

datatype pyval = Floatable double | NotFloatable

datatype action = Solve | SolveNumeric | Evaluate | Factor | Diff | Integrate | Simplify | Expand

text \<open>
  \<open>ready\<close> is the global \<^verbatim>\<open>pyodideReady\<close>. \<open>sympify\<close> is
  \<^verbatim>\<open>sympify(user_expr, locals={'x': x})\<close>. \<open>run_latex a\<close> is the right-hand side of
  \<^verbatim>\<open>result_str = ...\<close> for the command \<open>a\<close> (with the lines before it), \<open>run_raw a\<close> that
  of \<^verbatim>\<open>result_raw = ...\<close>. \<open>lambdify\<close> is \<^verbatim>\<open>lambdify(x, expr, "numpy")\<close>; the function
  it returns is applied to the sample points and its result is iterated over, which
  raises or gives the list of the elements.
\<close>

record ('e, 'r) engine =
  ready :: bool
  sympify :: "jsstring \<Rightarrow> py_exn + 'e"
  run_latex :: "action \<Rightarrow> 'e \<Rightarrow> py_exn + jsstring"
  run_raw :: "action \<Rightarrow> 'e \<Rightarrow> py_exn + 'r"
  lambdify :: "'e \<Rightarrow> py_exn + (double list \<Rightarrow> py_exn + pyval list)"

text \<open>
  What a JavaScript caller can catch: \<^verbatim>\<open>new Error(msg)\<close>, the error by which Pyodide
  reports a Python exception that left the script, and the \<^verbatim>\<open>SyntaxError\<close> of
  \<^verbatim>\<open>JSON.parse\<close>.
\<close>

datatype js_error = JSError jsstring | PythonError py_exn | JSSyntaxError

text \<open>
  The result of an \<^verbatim>\<open>async\<close> function: the promise is fulfilled with a value or
  rejected with an error. \<open>NotModelled\<close> marks the one input the model does not follow
  (see \<open>commandBody\<close>).
\<close>

datatype 'a outcome = Returned 'a | Threw js_error | NotModelled

section \<open>The bridge: \<^verbatim>\<open>runSympyCommand\<close>\<close>

text \<open>
  The \<^verbatim>\<open>switch\<close> on the command picks the Python lines that go into the \<^verbatim>\<open>try\<close>
  block. The \<^verbatim>\<open>default\<close> branch writes the command itself between double quotes into
  the Python source. Where the command is made of printable ASCII characters other than
  the double quote and the backslash, that is a string literal whose value is the text
  \<^verbatim>\<open>Unknown command: \<close> followed by the command (\<open>UnknownText\<close>). Any other command
  changes the Python program itself, and the model does not follow it: \<open>commandBody\<close>
  is \<open>None\<close> there.
\<close>

datatype body = Act action | GraphSentinel | UnknownText jsstring

definition literal_safe :: "jsstring \<Rightarrow> bool" where
  "literal_safe command \<longleftrightarrow> (\<forall>c \<in> set command. 32 \<le> c \<and> c \<le> 126 \<and> c \<noteq> 34 \<and> c \<noteq> 92)"

definition commandBody :: "jsstring \<Rightarrow> body option" where
  "commandBody command =
     (if command = js ''solve'' then Some (Act Solve)
      else if command = js ''solvenumeric'' then Some (Act SolveNumeric)
      else if command = js ''evaluate'' then Some (Act Evaluate)
      else if command = js ''factor'' then Some (Act Factor)
      else if command = js ''diff'' then Some (Act Diff)
      else if command = js ''integrate'' then Some (Act Integrate)
      else if command = js ''simplify'' then Some (Act Simplify)
      else if command = js ''expand'' then Some (Act Expand)
      else if command = js ''graph'' then Some GraphSentinel
      else if literal_safe command then Some (UnknownText command)
      else None)"


text \<open>
  The Python script of \<^verbatim>\<open>src/maths.js\<close>. \<^verbatim>\<open>sympify\<close> runs before the \<^verbatim>\<open>try\<close>
  block; the command body runs inside it, and \<^verbatim>\<open>except Exception as e\<close> turns what it
  raises into the text \<^verbatim>\<open>"Error: " + str(e)\<close>. The value of the script is
  \<^verbatim>\<open>result_str\<close>.
\<close>

definition try_body :: "('e, 'r) engine \<Rightarrow> body \<Rightarrow> 'e \<Rightarrow> py_exn + jsstring" where
  "try_body eng b expr =
     (case b of
        Act a \<Rightarrow> run_latex eng a expr
      | GraphSentinel \<Rightarrow> Inr (js ''GRAPH_COMMAND'')
      | UnknownText c \<Rightarrow> Inr (js ''Unknown command: '' @ c))"

definition py_command :: "('e, 'r) engine \<Rightarrow> jsstring \<Rightarrow> body \<Rightarrow> py_exn + jsstring" where
  "py_command eng user_expr b =
     (case sympify eng user_expr of
        Inl e \<Rightarrow> Inl e
      | Inr expr \<Rightarrow>
          (case try_body eng b expr of
             Inr result_str \<Rightarrow> Inr result_str
           | Inl e \<Rightarrow> if is_Exception e then Inr (js ''Error: '' @ py_str e) else Inl e))"

text \<open>
  \<^verbatim>\<open>runSympyCommand\<close> of \<^verbatim>\<open>src/maths.js\<close>. It has a \<^verbatim>\<open>finally\<close> block and no
  \<^verbatim>\<open>catch\<close>: an exception that leaves the Python script leaves the function too.
\<close>

definition runSympyCommand :: "('e, 'r) engine \<Rightarrow> jsstring \<Rightarrow> jsstring \<Rightarrow> jsstring outcome" where
  "runSympyCommand eng exprParsed command =
     (if \<not> ready eng then Threw (JSError (js ''Pyodide not ready''))
      else (case commandBody command of
              None \<Rightarrow> NotModelled
            | Some b \<Rightarrow>
                (case py_command eng exprParsed b of
                   Inl e \<Rightarrow> Threw (PythonError e)
                 | Inr result \<Rightarrow> Returned result)))"

text \<open>
  The second version of the bridge (the source file whose name is not known) also
  computes \<^verbatim>\<open>result_raw\<close> and returns the pair. The raw value is a text in the branches
  that assign a text, and a value of the engine otherwise.
\<close>

datatype 'r raw = RawText jsstring | RawValue 'r

definition try_body_raw :: "('e, 'r) engine \<Rightarrow> body \<Rightarrow> 'e \<Rightarrow> py_exn + jsstring \<times> 'r raw" where
  "try_body_raw eng b expr =
     (case b of
        Act a \<Rightarrow>
          (case run_latex eng a expr of
             Inl e \<Rightarrow> Inl e
           | Inr result_str \<Rightarrow>
               (case run_raw eng a expr of
                  Inl e \<Rightarrow> Inl e
                | Inr result_raw \<Rightarrow> Inr (result_str, RawValue result_raw)))
      | GraphSentinel \<Rightarrow> Inr (js ''GRAPH_COMMAND'', RawText (js ''GRAPH_COMMAND''))
      | UnknownText c \<Rightarrow> Inr (js ''Unknown command: '' @ c, RawText (js ''Unknown command'')))"

definition py_command_raw ::
  "('e, 'r) engine \<Rightarrow> jsstring \<Rightarrow> body \<Rightarrow> py_exn + jsstring \<times> 'r raw" where
  "py_command_raw eng user_expr b =
     (case sympify eng user_expr of
        Inl e \<Rightarrow> Inl e
      | Inr expr \<Rightarrow>
          (case try_body_raw eng b expr of
             Inr result \<Rightarrow> Inr result
           | Inl e \<Rightarrow>
               if is_Exception e then Inr (js ''Error: '' @ py_str e, RawText (js ''Error''))
               else Inl e))"

definition runSympyCommand_raw ::
  "('e, 'r) engine \<Rightarrow> jsstring \<Rightarrow> jsstring \<Rightarrow> (jsstring \<times> 'r raw) outcome" where
  "runSympyCommand_raw eng exprParsed command =
     (if \<not> ready eng then Threw (JSError (js ''Pyodide not ready''))
      else (case commandBody command of
              None \<Rightarrow> NotModelled
            | Some b \<Rightarrow>
                (case py_command_raw eng exprParsed b of
                   Inl e \<Rightarrow> Threw (PythonError e)
                 | Inr result \<Rightarrow> Returned result)))"

section \<open>The sampler: \<^verbatim>\<open>computeXYWithPyodide\<close>\<close>

text \<open>
  \<^verbatim>\<open>numpy.linspace(start, stop, num)\<close> with its default \<^verbatim>\<open>endpoint=True\<close>, as NumPy
  computes it in doubles: \<^verbatim>\<open>delta = stop - start\<close>, \<^verbatim>\<open>div = num - 1\<close> (\<open>d\<close> below)
  and, where \<^verbatim>\<open>div\<close> is positive, \<^verbatim>\<open>step = delta / div\<close>. The points are
  \<^verbatim>\<open>arange(0, num) * step + start\<close>; where the step is zero they are
  \<^verbatim>\<open>arange(0, num) / div * delta + start\<close>, and where \<^verbatim>\<open>div\<close> is not positive
  \<^verbatim>\<open>arange(0, num) * delta + start\<close>. For more than one point the last one is then
  set to \<open>stop\<close>. A negative \<open>num\<close> raises \<^verbatim>\<open>ValueError\<close> (its message is shortened
  here). \<open>start\<close> and \<open>stop\<close> are the numbers that JavaScript wrote into the script.
\<close>

definition linspace :: "real \<Rightarrow> real \<Rightarrow> int \<Rightarrow> py_exn + double list" where
  "linspace start stop num =
     (if num < 0 then Inl (PyException (js ''Number of samples must be non-negative.''))
      else
        let d = real_of_int (num - 1);
            delta = round_double (stop - start);
            y = (if 0 < d then
                   (let step = ddiv delta d
                    in if step = Finite 0
                       then map (\<lambda>i. dmul (ddiv (Finite (real i)) d) delta) [0 ..< nat num]
                       else map (\<lambda>i. dmul (Finite (real i)) step) [0 ..< nat num])
                 else map (\<lambda>i. dmul (Finite (real i)) delta) [0 ..< nat num]);
            pts = map (\<lambda>v. dadd v (Finite start)) y
        in Inr (if 1 < num then pts[nat num - 1 := Finite stop] else pts))"

text \<open>
  \<^verbatim>\<open>json.dumps\<close> writes a finite double as a number and \<^verbatim>\<open>None\<close> as \<^verbatim>\<open>null\<close>; with
  its default \<^verbatim>\<open>allow_nan=True\<close> it writes the other doubles as the bare words
  \<^verbatim>\<open>Infinity\<close>, \<^verbatim>\<open>-Infinity\<close> and \<^verbatim>\<open>NaN\<close>, which are not JSON.
\<close>

datatype json = JNumber real | JNull | JInfinity | JNegInfinity | JNaN

fun dumps_float :: "double \<Rightarrow> json" where
  "dumps_float (Finite r) = JNumber r"
| "dumps_float PosInf = JInfinity"
| "dumps_float NegInf = JNegInfinity"
| "dumps_float NaN = JNaN"

text \<open>
  The loop of the script: \<^verbatim>\<open>float(v)\<close> inside \<^verbatim>\<open>try\<close>, \<^verbatim>\<open>None\<close> where it raises.
\<close>

fun float_or_None :: "pyval \<Rightarrow> json" where
  "float_or_None (Floatable x) = dumps_float x"
| "float_or_None NotFloatable = JNull"

record json_payload =
  json_xs :: "json list"
  json_ys :: "json list"

definition py_sample ::
  "('e, 'r) engine \<Rightarrow> jsstring \<Rightarrow> real \<Rightarrow> real \<Rightarrow> int \<Rightarrow> py_exn + json_payload" where
  "py_sample eng user_expr xMin xMax points =
     (case sympify eng user_expr of
        Inl e \<Rightarrow> Inl e
      | Inr expr \<Rightarrow>
          (case lambdify eng expr of
             Inl e \<Rightarrow> Inl e
           | Inr f \<Rightarrow>
               (case linspace xMin xMax points of
                  Inl e \<Rightarrow> Inl e
                | Inr xs \<Rightarrow>
                    (case f xs of
                       Inl e \<Rightarrow> Inl e
                     | Inr ys_raw \<Rightarrow>
                         Inr \<lparr>json_xs = map dumps_float xs,
                              json_ys = map float_or_None ys_raw\<rparr>))))"

text \<open>
  \<^verbatim>\<open>JSON.parse\<close> accepts numbers and \<^verbatim>\<open>null\<close> in the two arrays and throws
  \<^verbatim>\<open>SyntaxError\<close> on any other word. An array element is a number or \<^verbatim>\<open>null\<close>
  (\<open>None\<close>).
\<close>

fun parse_value :: "json \<Rightarrow> double option option" where
  "parse_value (JNumber r) = Some (Some (Finite r))"
| "parse_value JNull = Some None"
| "parse_value j = None"

fun parse_array :: "json list \<Rightarrow> double option list option" where
  "parse_array [] = Some []"
| "parse_array (j # rest) =
     (case parse_value j of
        None \<Rightarrow> None
      | Some v \<Rightarrow> (case parse_array rest of None \<Rightarrow> None | Some vs \<Rightarrow> Some (v # vs)))"

record sample =
  obj_xs :: "double option list"
  obj_ys :: "double option list"

definition JSON_parse :: "json_payload \<Rightarrow> js_error + sample" where
  "JSON_parse p =
     (case parse_array (json_xs p) of
        None \<Rightarrow> Inl JSSyntaxError
      | Some xv \<Rightarrow>
          (case parse_array (json_ys p) of
             None \<Rightarrow> Inl JSSyntaxError
           | Some yv \<Rightarrow> Inr \<lparr>obj_xs = xv, obj_ys = yv\<rparr>))"

text \<open>The map over \<^verbatim>\<open>obj.ys\<close>: \<^verbatim>\<open>null\<close> stays, a number that is not finite becomes \<^verbatim>\<open>null\<close>.\<close>

fun isFinite :: "double \<Rightarrow> bool" where
  "isFinite (Finite r) \<longleftrightarrow> True"
| "isFinite n \<longleftrightarrow> False"

fun isNaN :: "double \<Rightarrow> bool" where
  "isNaN NaN \<longleftrightarrow> True"
| "isNaN n \<longleftrightarrow> False"

fun sanitize :: "double option \<Rightarrow> double option" where
  "sanitize None = None"
| "sanitize (Some n) = (if \<not> isFinite n \<or> isNaN n then None else Some n)"

definition computeXYWithPyodide ::
  "('e, 'r) engine \<Rightarrow> jsstring \<Rightarrow> real \<Rightarrow> real \<Rightarrow> int \<Rightarrow> sample outcome" where
  "computeXYWithPyodide eng exprParsed xMin xMax points =
     (if \<not> ready eng then Threw (JSError (js ''Pyodide not ready''))
      else (case py_sample eng exprParsed xMin xMax points of
              Inl e \<Rightarrow> Threw (PythonError e)
            | Inr pyResult \<Rightarrow>
                (case JSON_parse pyResult of
                   Inl err \<Rightarrow> Threw err
                 | Inr obj \<Rightarrow> Returned (obj\<lparr>obj_ys := map sanitize (obj_ys obj)\<rparr>))))"

text \<open>
  The compiled function of the expression returns one value for each of the sample
  points, as the function of a valid expression in the single variable \<open>x\<close> does. It
  holds too where the script stops before the function has returned.
\<close>

definition one_value_per_point ::
  "('e, 'r) engine \<Rightarrow> jsstring \<Rightarrow> real \<Rightarrow> real \<Rightarrow> int \<Rightarrow> bool" where
  "one_value_per_point eng user_expr xMin xMax points =
     (case sympify eng user_expr of
        Inl e \<Rightarrow> True
      | Inr expr \<Rightarrow>
          (case lambdify eng expr of
             Inl e \<Rightarrow> True
           | Inr f \<Rightarrow>
               (case linspace xMin xMax points of
                  Inl e \<Rightarrow> True
                | Inr xs \<Rightarrow>
                    (case f xs of
                       Inl e \<Rightarrow> True
                     | Inr ys_raw \<Rightarrow> length ys_raw = length xs))))"

section \<open>The dispatcher: \<^verbatim>\<open>doMaths\<close>\<close>


definition startsWith :: "jsstring \<Rightarrow> jsstring \<Rightarrow> bool" where
  "startsWith s p \<longleftrightarrow> take (length p) s = p"






text \<open>
  A stand-in for the engine, to run the model on concrete inputs. It rejects the text
  \<open>(\<close> as SymPy does, with \<^verbatim>\<open>SympifyError\<close>, and takes any other text for an expression.
  Its commands return the text of the expression. The compiled function of \<open>1/x\<close>
  divides as NumPy does, where \<open>1/0\<close> is \<open>inf\<close>; that of any other expression returns
  the sample points themselves.
\<close>

fun numpy_reciprocal :: "double \<Rightarrow> pyval" where
  "numpy_reciprocal (Finite x) =
     (if x = 0 then Floatable PosInf else Floatable (round_double (1 / x)))"
| "numpy_reciprocal PosInf = Floatable (Finite 0)"
| "numpy_reciprocal NegInf = Floatable (Finite 0)"
| "numpy_reciprocal NaN = Floatable NaN"

definition demo_engine :: "(jsstring, jsstring) engine" where
  "demo_engine =
     \<lparr>ready = True,
      sympify = (\<lambda>s. if s = js ''('' then Inl (PyException (js ''SympifyError'')) else Inr s),
      run_latex = (\<lambda>a e. Inr e),
      run_raw = (\<lambda>a e. Inr e),
      lambdify = (\<lambda>e. Inr (\<lambda>pts.
         Inr (map (\<lambda>x. if e = js ''1/x'' then numpy_reciprocal x else Floatable x) pts)))\<rparr>"

section \<open>Evaluation and basic facts\<close>

lemmas char_defs = caret_def star_def lparen_def rparen_def eq_sign_def minus_sign_def space_char_def
lemmas class_defs = is_space_def is_digit_def is_letter_def is_alnum_def
lemmas eval_defs = js_def parseString_def rewrite_ops_def trim_def rstrip_def spaces_then_def
  char_defs class_defs

lemma spaces_thenD:
  assumes "spaces_then P s = Some (ws, a, r)"
  shows "s = ws @ a # r" and "\<forall>x\<in>set ws. is_space x" and "\<not> is_space a" and "P a"
    and "dropWhile is_space s = a # r" and "ws = takeWhile is_space s"
proof -
  from assms have d: "dropWhile is_space s = a # r" and w: "ws = takeWhile is_space s" and p: "P a"
    by (auto simp: spaces_then_def split: list.splits if_splits)
  show "dropWhile is_space s = a # r" by (rule d)
  show "ws = takeWhile is_space s" by (rule w)
  show "P a" by (rule p)
  from d w show "s = ws @ a # r"
    by (metis takeWhile_dropWhile_id)
  from w show "\<forall>x\<in>set ws. is_space x"
    by (auto dest: set_takeWhileD)
  from d show "\<not> is_space a"
    by (metis hd_dropWhile list.sel(1) list.distinct(1))
qed

lemma filter_spaces_nil:
  "\<forall>x\<in>set ws. is_space x \<Longrightarrow> (\<And>c. K c \<Longrightarrow> \<not> is_space c) \<Longrightarrow> filter K ws = []"
  by (induction ws) auto

lemma filter_dropWhile_space:
  "(\<And>c. K c \<Longrightarrow> \<not> is_space c) \<Longrightarrow> filter K (dropWhile is_space s) = filter K s"
  by (induction s) auto

lemma filter_rstrip:
  assumes "\<And>c. K c \<Longrightarrow> \<not> is_space c"
  shows "filter K (rstrip s) = filter K s"
proof -
  have "filter K (rstrip s) = rev (filter K (dropWhile is_space (rev s)))"
    by (simp add: rstrip_def rev_filter)
  also have "\<dots> = rev (filter K (rev s))"
    using assms by (simp add: filter_dropWhile_space)
  finally show ?thesis by (simp add: rev_filter)
qed

lemma filter_trim:
  "(\<And>c. K c \<Longrightarrow> \<not> is_space c) \<Longrightarrow> filter K (trim s) = filter K s"
  by (simp add: trim_def filter_rstrip filter_dropWhile_space)

lemma filter_replace_caret:
  "\<not> K star \<Longrightarrow> \<not> K caret \<Longrightarrow> filter K (replace_caret s) = filter K s"
  by (induction s) auto

lemma filter_mul_digit_letter:
  "\<not> K star \<Longrightarrow> filter K (mul_digit_letter s) = filter K s"
  by (induction s rule: mul_digit_letter.induct) auto

lemma paren_alnum_cases:
  obtains (skip) "c \<noteq> rparen \<or> spaces_then is_alnum s = None"
        | (hit) ws a r where "c = rparen" and "spaces_then is_alnum s = Some (ws, a, r)"
  by (cases "spaces_then is_alnum s") auto

lemma digit_paren_cases:
  obtains (skip) "\<not> is_digit c \<or> spaces_then (\<lambda>x. x = lparen) s = None"
        | (hit) ws a r where "is_digit c" and "spaces_then (\<lambda>x. x = lparen) s = Some (ws, a, r)"
  by (cases "spaces_then (\<lambda>x. x = lparen) s") auto

lemma paren_paren_cases:
  obtains (skip) "c \<noteq> rparen \<or> spaces_then (\<lambda>x. x = lparen) s = None"
        | (hit) ws a r where "c = rparen" and "spaces_then (\<lambda>x. x = lparen) s = Some (ws, a, r)"
  by (cases "spaces_then (\<lambda>x. x = lparen) s") auto

lemma filter_mul_paren_alnum:
  assumes "\<not> K star"
  shows "filter K (mul_paren_alnum s) = filter K s"
proof (induction s rule: mul_paren_alnum.induct)
  case 1
  show ?case by simp
next
  case (2 c s)
  show ?case
  proof (cases c s rule: paren_alnum_cases)
    case skip
    with 2 show ?thesis by auto
  next
    case (hit ws a r)
    then have s: "s = ws @ a # r" by (simp add: spaces_thenD(1))
    from 2 hit have "filter K (mul_paren_alnum r) = filter K r" by simp
    with hit assms show ?thesis by (simp add: s)
  qed
qed

lemma filter_mul_digit_paren:
  assumes "\<not> K star" and "\<And>c. K c \<Longrightarrow> \<not> is_space c"
  shows "filter K (mul_digit_paren s) = filter K s"
proof (induction s rule: mul_digit_paren.induct)
  case 1
  show ?case by simp
next
  case (2 c s)
  show ?case
  proof (cases c s rule: digit_paren_cases)
    case skip
    with 2 show ?thesis by auto
  next
    case (hit ws a r)
    then have s: "s = ws @ a # r" and a: "a = lparen" and ws: "\<forall>x\<in>set ws. is_space x"
      using spaces_thenD [of "\<lambda>x. x = lparen" s ws a r] by simp_all
    from ws assms(2) have f: "filter K ws = []" by (rule filter_spaces_nil)
    from 2 hit have "filter K (mul_digit_paren r) = filter K r" by simp
    with hit assms(1) show ?thesis by (simp add: s a f)
  qed
qed

lemma filter_mul_paren_paren:
  assumes "\<not> K star" and "\<And>c. K c \<Longrightarrow> \<not> is_space c"
  shows "filter K (mul_paren_paren s) = filter K s"
proof (induction s rule: mul_paren_paren.induct)
  case 1
  show ?case by simp
next
  case (2 c s)
  show ?case
  proof (cases c s rule: paren_paren_cases)
    case skip
    with 2 show ?thesis by auto
  next
    case (hit ws a r)
    then have s: "s = ws @ a # r" and a: "a = lparen" and ws: "\<forall>x\<in>set ws. is_space x"
      using spaces_thenD [of "\<lambda>x. x = lparen" s ws a r] by simp_all
    from ws assms(2) have f: "filter K ws = []" by (rule filter_spaces_nil)
    from 2 hit have "filter K (mul_paren_paren r) = filter K r" by simp
    with hit assms(1) show ?thesis by (simp add: s a f)
  qed
qed

lemma is_space_space_char: "is_space space_char"
  by (simp add: is_space_def space_char_def)

lemma filter_collapse_spaces:
  assumes "\<And>c. K c \<Longrightarrow> \<not> is_space c"
  shows "filter K (collapse_spaces s) = filter K s"
proof (induction s rule: collapse_spaces.induct)
  case 1
  show ?case by simp
next
  case (2 c s)
  show ?case
  proof (cases "is_space c")
    case True
    with assms have "\<not> K c" and "\<not> K space_char" using is_space_space_char by auto
    with True 2 assms show ?thesis by (simp add: filter_dropWhile_space)
  next
    case False
    with 2 show ?thesis by simp
  qed
qed

lemma filter_rewrite_ops:
  assumes "\<not> K star" and "\<not> K caret" and "\<And>c. K c \<Longrightarrow> \<not> is_space c"
  shows "filter K (rewrite_ops s) = filter K s"
  using assms
  by (simp add: rewrite_ops_def filter_collapse_spaces filter_mul_paren_paren
      filter_mul_digit_paren filter_mul_paren_alnum filter_mul_digit_letter
      filter_replace_caret filter_trim)

lemma count_list_filter: "count_list xs c = length (filter (\<lambda>x. x = c) xs)"
  by (induction xs) auto

lemma count_rewrite_ops:
  assumes "c \<noteq> star" and "c \<noteq> caret" and "\<not> is_space c"
  shows "count_list (rewrite_ops s) c = count_list s c"
proof -
  have "filter (\<lambda>x. x = c) (rewrite_ops s) = filter (\<lambda>x. x = c) s"
    by (rule filter_rewrite_ops) (use assms in auto)
  then show ?thesis by (simp add: count_list_filter)
qed

lemma count_dropWhile_space:
  "\<not> is_space c \<Longrightarrow> count_list (dropWhile is_space s) c = count_list s c"
  by (induction s) auto

lemma rstrip_spaces: "\<forall>x\<in>set l. is_space x \<Longrightarrow> rstrip l = []"
  by (simp add: rstrip_def)

lemma rstrip_Cons:
  assumes "\<not> (\<forall>x\<in>set (c # l). is_space x)"
  shows "rstrip (c # l) = c # rstrip l"
proof (cases "\<forall>x\<in>set l. is_space x")
  case True
  with assms have "\<not> is_space c" by simp
  with True show ?thesis by (simp add: rstrip_def dropWhile_append)
next
  case False
  then show ?thesis by (simp add: rstrip_def dropWhile_append)
qed

lemma set_rstrip: "set (rstrip l) \<subseteq> set l"
  unfolding rstrip_def using set_dropWhileD by fastforce

lemma not_space_eq_sign: "\<not> is_space eq_sign"
  by (simp add: is_space_def eq_sign_def)

lemma replace_first_eq_split:
  assumes "eq_sign \<notin> set l"
  shows "replace_first_eq (l @ eq_sign # r) = rstrip l @ minus_sign # lparen # dropWhile is_space r"
  using assms
proof (induction l)
  case Nil
  show ?case
    by (simp add: spaces_then_def not_space_eq_sign rstrip_def)
next
  case (Cons c l)
  show ?case
  proof (cases "\<forall>x\<in>set (c # l). is_space x")
    case True
    then have "dropWhile is_space ((c # l) @ eq_sign # r) = dropWhile is_space (eq_sign # r)"
      by (intro dropWhile_append2) auto
    then have "dropWhile is_space ((c # l) @ eq_sign # r) = eq_sign # r"
      using not_space_eq_sign by simp
    then have "spaces_then (\<lambda>x. x = eq_sign) (c # l @ eq_sign # r) = Some (takeWhile is_space (c # l @ eq_sign # r), eq_sign, r)"
      by (simp add: spaces_then_def)
    with True show ?thesis
      by (simp add: rstrip_spaces)
  next
    case False
    then obtain x where x: "x \<in> set (c # l)" "\<not> is_space x" by blast
    then have d: "dropWhile is_space ((c # l) @ eq_sign # r) = dropWhile is_space (c # l) @ eq_sign # r"
      by (rule dropWhile_append1)
    from x have "dropWhile is_space (c # l) \<noteq> []"
      by (metis dropWhile_eq_Nil_conv)
    then obtain y ys where y: "dropWhile is_space (c # l) = y # ys"
      by (cases "dropWhile is_space (c # l)") auto
    then have "y \<in> set (c # l)"
      by (metis list.set_intros(1) set_dropWhileD)
    with Cons.prems have "y \<noteq> eq_sign" by auto
    with d y have "spaces_then (\<lambda>x. x = eq_sign) (c # l @ eq_sign # r) = None"
      by (simp add: spaces_then_def)
    moreover from Cons have "replace_first_eq (l @ eq_sign # r) = rstrip l @ minus_sign # lparen # dropWhile is_space r"
      by simp
    ultimately show ?thesis
      using False by (simp add: rstrip_Cons)
  qed
qed

section \<open>Strings that the parser leaves alone\<close>

lemma space_not_class:
  "is_space c \<Longrightarrow> \<not> is_digit c \<and> \<not> is_letter c \<and> \<not> is_alnum c \<and> c \<noteq> rparen \<and> c \<noteq> lparen
     \<and> c \<noteq> star \<and> c \<noteq> caret \<and> c \<noteq> eq_sign \<and> c \<noteq> minus_sign"
  by (auto simp: class_defs char_defs)

lemma has_digit_letter_Cons:
  "has_digit_letter (c # s) \<longleftrightarrow> (is_digit c \<and> s \<noteq> [] \<and> is_letter (hd s)) \<or> has_digit_letter s"
  by (cases s) auto

lemma trim_id: "trimmed s \<Longrightarrow> trim s = s"
proof (cases s)
  case Nil
  then show ?thesis by (simp add: trim_def rstrip_def)
next
  case (Cons c r)
  assume "trimmed s"
  with Cons have h: "\<not> is_space (hd s)" and l: "\<not> is_space (last s)"
    by (auto simp: trimmed_def)
  from h Cons have d: "dropWhile is_space s = s" by simp
  from Cons have "s \<noteq> []" by simp
  then obtain q x where q: "s = q @ [x]"
    by (meson rev_exhaust)
  with l have "dropWhile is_space (rev s) = rev s" by simp
  with d show ?thesis by (simp add: trim_def rstrip_def)
qed

lemma replace_caret_id: "caret \<notin> set s \<Longrightarrow> replace_caret s = s"
  by (induction s) auto

lemma mul_digit_letter_id: "\<not> has_digit_letter s \<Longrightarrow> mul_digit_letter s = s"
  by (induction s rule: mul_digit_letter.induct) auto

lemma mul_paren_alnum_id: "\<not> has_paren_alnum s \<Longrightarrow> mul_paren_alnum s = s"
  by (induction s) (auto split: option.splits)

lemma mul_digit_paren_id: "\<not> has_digit_paren s \<Longrightarrow> mul_digit_paren s = s"
  by (induction s) (auto split: option.splits)

lemma mul_paren_paren_id: "\<not> has_paren_paren s \<Longrightarrow> mul_paren_paren s = s"
  by (induction s) (auto split: option.splits)

lemma dropWhile_collapse:
  "dropWhile is_space (collapse_spaces s) = collapse_spaces (dropWhile is_space s)"
proof (induction s rule: collapse_spaces.induct)
  case 1
  show ?case by simp
next
  case (2 c s)
  show ?case
  proof (cases "is_space c")
    case True
    with 2 show ?thesis by (simp add: is_space_space_char)
  next
    case False
    then show ?thesis by simp
  qed
qed

lemma collapse_idem: "collapse_spaces (collapse_spaces s) = collapse_spaces s"
proof (induction s rule: collapse_spaces.induct)
  case 1
  show ?case by simp
next
  case (2 c s)
  show ?case
  proof (cases "is_space c")
    case True
    with 2 show ?thesis by (simp add: is_space_space_char dropWhile_collapse)
  next
    case False
    with 2 show ?thesis by simp
  qed
qed

lemma spaces_then_None_iff:
  "spaces_then P s = None \<longleftrightarrow> (case dropWhile is_space s of [] \<Rightarrow> True | c # r \<Rightarrow> \<not> P c)"
  by (cases "dropWhile is_space s") (simp_all add: spaces_then_def del: dropWhile_eq_Nil_conv)

lemma spaces_then_collapse:
  "spaces_then P (collapse_spaces s) = None \<longleftrightarrow> spaces_then P s = None"
proof (cases "dropWhile is_space s")
  case Nil
  show ?thesis unfolding spaces_then_None_iff dropWhile_collapse Nil by simp
next
  case (Cons c r)
  then have "\<not> is_space c" by (metis hd_dropWhile list.sel(1) list.distinct(1))
  then show ?thesis unfolding spaces_then_None_iff dropWhile_collapse Cons by simp
qed

lemma spaces_then_space_Cons:
  "is_space c \<Longrightarrow> spaces_then P (c # s) = None \<longleftrightarrow> spaces_then P s = None"
  by (simp add: spaces_then_None_iff)

lemma has_digit_letter_dropWhile: "has_digit_letter (dropWhile is_space s) = has_digit_letter s"
  by (induction s) (auto simp: has_digit_letter_Cons space_not_class)

lemma has_paren_alnum_dropWhile: "has_paren_alnum (dropWhile is_space s) = has_paren_alnum s"
  by (induction s) (auto simp: space_not_class)

lemma has_digit_paren_dropWhile: "has_digit_paren (dropWhile is_space s) = has_digit_paren s"
  by (induction s) (auto simp: space_not_class)

lemma has_paren_paren_dropWhile: "has_paren_paren (dropWhile is_space s) = has_paren_paren s"
  by (induction s) (auto simp: space_not_class)

lemma hd_collapse_letter:
  "collapse_spaces s \<noteq> [] \<and> is_letter (hd (collapse_spaces s)) \<longleftrightarrow> s \<noteq> [] \<and> is_letter (hd s)"
  using space_not_class is_space_space_char by (cases s) auto

lemma has_digit_letter_collapse: "has_digit_letter (collapse_spaces s) = has_digit_letter s"
proof (induction s rule: collapse_spaces.induct)
  case 1
  show ?case by simp
next
  case (2 c s)
  show ?case
  proof (cases "is_space c")
    case True
    with 2 show ?thesis
      using space_not_class [of c] space_not_class [of space_char] is_space_space_char
      by (simp add: has_digit_letter_Cons has_digit_letter_dropWhile)
  next
    case False
    with 2 show ?thesis
      using hd_collapse_letter [of s] by (simp add: has_digit_letter_Cons)
  qed
qed

lemma has_paren_alnum_collapse: "has_paren_alnum (collapse_spaces s) = has_paren_alnum s"
proof (induction s rule: collapse_spaces.induct)
  case 1
  show ?case by simp
next
  case (2 c s)
  show ?case
  proof (cases "is_space c")
    case True
    with 2 show ?thesis
      using space_not_class [of c] space_not_class [of space_char] is_space_space_char
      by (simp add: has_paren_alnum_dropWhile)
  next
    case False
    with 2 show ?thesis by (simp add: spaces_then_collapse)
  qed
qed

lemma has_digit_paren_collapse: "has_digit_paren (collapse_spaces s) = has_digit_paren s"
proof (induction s rule: collapse_spaces.induct)
  case 1
  show ?case by simp
next
  case (2 c s)
  show ?case
  proof (cases "is_space c")
    case True
    with 2 show ?thesis
      using space_not_class [of c] space_not_class [of space_char] is_space_space_char
      by (simp add: has_digit_paren_dropWhile)
  next
    case False
    with 2 show ?thesis by (simp add: spaces_then_collapse)
  qed
qed

lemma has_paren_paren_collapse: "has_paren_paren (collapse_spaces s) = has_paren_paren s"
proof (induction s rule: collapse_spaces.induct)
  case 1
  show ?case by simp
next
  case (2 c s)
  show ?case
  proof (cases "is_space c")
    case True
    with 2 show ?thesis
      using space_not_class [of c] space_not_class [of space_char] is_space_space_char
      by (simp add: has_paren_paren_dropWhile)
  next
    case False
    with 2 show ?thesis by (simp add: spaces_then_collapse)
  qed
qed

lemma implicit_mul_collapse: "implicit_mul (collapse_spaces s) = implicit_mul s"
  by (simp add: implicit_mul_def has_digit_letter_collapse has_paren_alnum_collapse
      has_digit_paren_collapse has_paren_paren_collapse)

lemma collapse_snoc: "\<not> is_space x \<Longrightarrow> collapse_spaces (s @ [x]) = collapse_spaces s @ [x]"
proof (induction s rule: collapse_spaces.induct)
  case 1
  then show ?case by simp
next
  case (2 c s)
  show ?case
  proof (cases "is_space c")
    case True
    with 2 show ?thesis by (simp add: dropWhile_append3)
  next
    case False
    with 2 show ?thesis by simp
  qed
qed

lemma trimmed_collapse: "trimmed s \<Longrightarrow> trimmed (collapse_spaces s)"
proof (cases s rule: rev_cases)
  case Nil
  then show ?thesis by (simp add: trimmed_def)
next
  case (snoc r x)
  assume t: "trimmed s"
  with snoc have x: "\<not> is_space x" by (simp add: trimmed_def)
  from t snoc have h: "\<not> is_space (hd s)" by (simp add: trimmed_def)
  from snoc have "s \<noteq> []" by simp
  then obtain c q where s: "s = c # q" by (meson neq_Nil_conv)
  with h have "hd (collapse_spaces s) = c" by simp
  with h s have "\<not> is_space (hd (collapse_spaces s))" by simp
  moreover from x snoc have "last (collapse_spaces s) = x" by (simp add: collapse_snoc)
  ultimately show ?thesis using x by (simp add: trimmed_def)
qed

lemma set_collapse: "set (collapse_spaces s) \<subseteq> insert space_char (set s)"
proof (induction s rule: collapse_spaces.induct)
  case 1
  show ?case by simp
next
  case (2 c s)
  show ?case
  proof (cases "is_space c")
    case True
    with 2 show ?thesis using set_dropWhileD [of _ is_space s] by auto
  next
    case False
    with 2 show ?thesis by auto
  qed
qed

lemma rewrite_ops_engine_form:
  assumes "caret \<notin> set s" and "\<not> implicit_mul s" and "trimmed s"
  shows "rewrite_ops s = collapse_spaces s"
  using assms
  by (simp add: rewrite_ops_def implicit_mul_def trim_id replace_caret_id mul_digit_letter_id
      mul_paren_alnum_id mul_digit_paren_id mul_paren_paren_id)

lemma parseString_engine_form:
  assumes "caret \<notin> set s" and "eq_sign \<notin> set s" and "\<not> implicit_mul s" and "trimmed s"
  shows "parseString s = collapse_spaces s"
proof -
  have "eq_sign \<noteq> space_char" by (simp add: char_defs)
  with assms(2) set_collapse [of s] have "eq_sign \<notin> set (collapse_spaces s)" by auto
  with assms show ?thesis by (simp add: parseString_def rewrite_ops_engine_form)
qed

section \<open>No place for a multiplication sign is left\<close>

lemma spaces_then_nonspace_Cons:
  "\<not> is_space c \<Longrightarrow> spaces_then P (c # s) = None \<longleftrightarrow> \<not> P c"
  by (simp add: spaces_then_None_iff)

lemma star_plain: "\<not> is_space star" "\<not> is_digit star" "\<not> is_letter star" "\<not> is_alnum star"
  "star \<noteq> rparen" "star \<noteq> lparen"
  by (simp_all add: class_defs char_defs)

lemma paren_plain: "\<not> is_space lparen" "\<not> is_digit lparen" "\<not> is_letter lparen" "\<not> is_alnum lparen"
  "\<not> is_space rparen" "\<not> is_digit rparen" "\<not> is_letter rparen" "\<not> is_alnum rparen" "lparen \<noteq> rparen"
  by (simp_all add: class_defs char_defs)

lemma digit_plain: "is_digit c \<Longrightarrow> \<not> is_space c \<and> \<not> is_letter c \<and> c \<noteq> rparen \<and> c \<noteq> lparen \<and> is_alnum c"
  by (auto simp: class_defs char_defs)

lemma alnum_plain: "is_alnum c \<Longrightarrow> \<not> is_space c \<and> c \<noteq> rparen \<and> c \<noteq> lparen"
  by (auto simp: class_defs char_defs)

lemma mul_digit_letter_Cons: "mul_digit_letter (c # s) = c # tl (mul_digit_letter (c # s))"
  by (cases s) auto

lemma mul_paren_alnum_Cons: "mul_paren_alnum (c # s) = c # tl (mul_paren_alnum (c # s))"
  by (cases c s rule: paren_alnum_cases) auto

lemma mul_digit_paren_Cons: "mul_digit_paren (c # s) = c # tl (mul_digit_paren (c # s))"
  by (cases c s rule: digit_paren_cases) auto

lemma mul_paren_paren_Cons: "mul_paren_paren (c # s) = c # tl (mul_paren_paren (c # s))"
  by (cases c s rule: paren_paren_cases) auto

lemma first_letter_iff:
  assumes "\<And>c s. f (c # s) = c # tl (f (c # s))" and "f [] = []"
  shows "f s \<noteq> [] \<and> is_letter (hd (f s)) \<longleftrightarrow> s \<noteq> [] \<and> is_letter (hd s)"
proof (cases s)
  case Nil
  with assms(2) show ?thesis by simp
next
  case (Cons c r)
  from assms(1) have "f (c # r) = c # tl (f (c # r))" .
  then have "f (c # r) \<noteq> [] \<and> hd (f (c # r)) = c"
    by (metis list.sel(1) list.distinct(1))
  with Cons show ?thesis by simp
qed

lemma spaces_then_step:
  assumes "\<And>c s. f (c # s) = c # tl (f (c # s))" and "f [] = []"
    and "\<And>c s. is_space c \<Longrightarrow> f (c # s) = c # f s"
  shows "spaces_then P (f s) = None \<longleftrightarrow> spaces_then P s = None"
proof (induction s)
  case Nil
  with assms(2) show ?case by simp
next
  case (Cons c s)
  show ?case
  proof (cases "is_space c")
    case True
    with Cons assms(3) show ?thesis by (simp add: spaces_then_space_Cons)
  next
    case False
    from assms(1) have "f (c # s) = c # tl (f (c # s))" .
    then have "spaces_then P (f (c # s)) = None \<longleftrightarrow> \<not> P c"
      using False by (metis spaces_then_nonspace_Cons)
    with False show ?thesis by (simp add: spaces_then_nonspace_Cons)
  qed
qed

lemma spaces_then_mul_paren_alnum:
  "spaces_then P (mul_paren_alnum s) = None \<longleftrightarrow> spaces_then P s = None"
  by (rule spaces_then_step, rule mul_paren_alnum_Cons, simp, simp add: space_not_class)

lemma spaces_then_mul_digit_paren:
  "spaces_then P (mul_digit_paren s) = None \<longleftrightarrow> spaces_then P s = None"
  by (rule spaces_then_step, rule mul_digit_paren_Cons, simp, simp add: space_not_class)

lemma spaces_then_mul_paren_paren:
  "spaces_then P (mul_paren_paren s) = None \<longleftrightarrow> spaces_then P s = None"
  by (rule spaces_then_step, rule mul_paren_paren_Cons, simp, simp add: space_not_class)

lemma has_digit_letter_suffix: "has_digit_letter r \<Longrightarrow> has_digit_letter (xs @ r)"
  by (induction xs) (auto simp: has_digit_letter_Cons)

lemma has_paren_alnum_suffix: "has_paren_alnum r \<Longrightarrow> has_paren_alnum (xs @ r)"
  by (induction xs) auto

lemma has_digit_paren_suffix: "has_digit_paren r \<Longrightarrow> has_digit_paren (xs @ r)"
  by (induction xs) auto

lemma has_digit_letter_spaces:
  "\<forall>x\<in>set ws. is_space x \<Longrightarrow> \<not> is_space a \<Longrightarrow> has_digit_letter (ws @ a # r) = has_digit_letter (a # r)"
  using has_digit_letter_dropWhile [of "ws @ a # r"] by (simp add: dropWhile_append3)

lemma has_paren_alnum_spaces:
  "\<forall>x\<in>set ws. is_space x \<Longrightarrow> \<not> is_space a \<Longrightarrow> has_paren_alnum (ws @ a # r) = has_paren_alnum (a # r)"
  using has_paren_alnum_dropWhile [of "ws @ a # r"] by (simp add: dropWhile_append3)

lemma no_digit_letter_mul_digit_letter: "\<not> has_digit_letter (mul_digit_letter s)"
proof (induction s rule: mul_digit_letter.induct)
  case (1 d l s)
  show ?case
  proof (cases "is_digit d \<and> is_letter l")
    case True
    then have "\<not> is_digit l" by (auto simp: class_defs)
    with True 1 show ?thesis
      by (simp add: has_digit_letter_Cons star_plain)
  next
    case False
    have "mul_digit_letter (l # s) = l # tl (mul_digit_letter (l # s))"
      by (rule mul_digit_letter_Cons)
    then have "mul_digit_letter (l # s) \<noteq> [] \<and> hd (mul_digit_letter (l # s)) = l"
      by (metis list.sel(1) list.distinct(1))
    with False 1 show ?thesis
      by (auto simp: has_digit_letter_Cons)
  qed
qed simp_all

lemma no_paren_alnum_mul_paren_alnum: "\<not> has_paren_alnum (mul_paren_alnum s)"
proof (induction s rule: mul_paren_alnum.induct)
  case 1
  show ?case by simp
next
  case (2 c s)
  show ?case
  proof (cases c s rule: paren_alnum_cases)
    case skip
    with 2 have "\<not> has_paren_alnum (mul_paren_alnum s)" by auto
    with skip show ?thesis
      by (auto simp: spaces_then_mul_paren_alnum)
  next
    case (hit ws a r)
    from spaces_thenD [OF hit(2)] have ws: "\<forall>x\<in>set ws. is_space x" and a: "\<not> is_space a" "is_alnum a"
      by simp_all
    from 2 hit have ih: "\<not> has_paren_alnum (mul_paren_alnum r)" by simp
    from a alnum_plain [of a] have "a \<noteq> rparen" by simp
    with ih have "\<not> has_paren_alnum (a # mul_paren_alnum r)" by simp
    with ws a have "\<not> has_paren_alnum (ws @ a # mul_paren_alnum r)"
      by (simp add: has_paren_alnum_spaces)
    with hit show ?thesis
      by (simp add: star_plain spaces_then_nonspace_Cons)
  qed
qed

lemma no_digit_letter_mul_paren_alnum:
  "\<not> has_digit_letter s \<Longrightarrow> \<not> has_digit_letter (mul_paren_alnum s)"
proof (induction s rule: mul_paren_alnum.induct)
  case 1
  show ?case by simp
next
  case (2 c s)
  from "2.prems" have ns: "\<not> has_digit_letter s" and nc: "\<not> (is_digit c \<and> s \<noteq> [] \<and> is_letter (hd s))"
    by (simp_all add: has_digit_letter_Cons)
  show ?case
  proof (cases c s rule: paren_alnum_cases)
    case skip
    with 2 ns have "\<not> has_digit_letter (mul_paren_alnum s)" by auto
    moreover have "mul_paren_alnum s \<noteq> [] \<and> is_letter (hd (mul_paren_alnum s)) \<longleftrightarrow> s \<noteq> [] \<and> is_letter (hd s)"
      by (rule first_letter_iff, rule mul_paren_alnum_Cons, simp)
    ultimately show ?thesis using skip nc
      by (auto simp: has_digit_letter_Cons)
  next
    case (hit ws a r)
    from spaces_thenD [OF hit(2)] have s: "s = ws @ a # r" and ws: "\<forall>x\<in>set ws. is_space x"
      and a: "\<not> is_space a" by simp_all
    from ns s ws a have nar: "\<not> has_digit_letter (a # r)"
      by (simp add: has_digit_letter_spaces)
    then have nr: "\<not> has_digit_letter r" by (simp add: has_digit_letter_Cons)
    with 2 hit have ih: "\<not> has_digit_letter (mul_paren_alnum r)" by simp
    have "mul_paren_alnum r \<noteq> [] \<and> is_letter (hd (mul_paren_alnum r)) \<longleftrightarrow> r \<noteq> [] \<and> is_letter (hd r)"
      by (rule first_letter_iff, rule mul_paren_alnum_Cons, simp)
    with nar ih have "\<not> has_digit_letter (a # mul_paren_alnum r)"
      by (simp add: has_digit_letter_Cons)
    with ws a have "\<not> has_digit_letter (ws @ a # mul_paren_alnum r)"
      by (simp add: has_digit_letter_spaces)
    then have "\<not> has_digit_letter (star # ws @ a # mul_paren_alnum r)"
      by (simp add: has_digit_letter_Cons star_plain)
    with hit show ?thesis
      by (simp add: has_digit_letter_Cons paren_plain)
  qed
qed

lemma no_digit_paren_mul_digit_paren: "\<not> has_digit_paren (mul_digit_paren s)"
proof (induction s rule: mul_digit_paren.induct)
  case 1
  show ?case by simp
next
  case (2 c s)
  show ?case
  proof (cases c s rule: digit_paren_cases)
    case skip
    with 2 have "\<not> has_digit_paren (mul_digit_paren s)" by auto
    with skip show ?thesis
      by (auto simp: spaces_then_mul_digit_paren)
  next
    case (hit ws a r)
    from 2 hit have ih: "\<not> has_digit_paren (mul_digit_paren r)" by simp
    with hit show ?thesis
      by (simp add: star_plain paren_plain spaces_then_nonspace_Cons)
  qed
qed

lemma no_digit_letter_mul_digit_paren:
  "\<not> has_digit_letter s \<Longrightarrow> \<not> has_digit_letter (mul_digit_paren s)"
proof (induction s rule: mul_digit_paren.induct)
  case 1
  show ?case by simp
next
  case (2 c s)
  from "2.prems" have ns: "\<not> has_digit_letter s" and nc: "\<not> (is_digit c \<and> s \<noteq> [] \<and> is_letter (hd s))"
    by (simp_all add: has_digit_letter_Cons)
  show ?case
  proof (cases c s rule: digit_paren_cases)
    case skip
    with 2 ns have "\<not> has_digit_letter (mul_digit_paren s)" by auto
    moreover have "mul_digit_paren s \<noteq> [] \<and> is_letter (hd (mul_digit_paren s)) \<longleftrightarrow> s \<noteq> [] \<and> is_letter (hd s)"
      by (rule first_letter_iff, rule mul_digit_paren_Cons, simp)
    ultimately show ?thesis using skip nc
      by (auto simp: has_digit_letter_Cons)
  next
    case (hit ws a r)
    from spaces_thenD [OF hit(2)] have s: "s = ws @ a # r" by simp
    from ns s have "\<not> has_digit_letter r"
      using has_digit_letter_suffix [of r "ws @ [a]"] by auto
    with 2 hit have ih: "\<not> has_digit_letter (mul_digit_paren r)" by simp
    with hit show ?thesis
      by (simp add: has_digit_letter_Cons star_plain paren_plain)
  qed
qed

lemma no_paren_alnum_mul_digit_paren:
  "\<not> has_paren_alnum s \<Longrightarrow> \<not> has_paren_alnum (mul_digit_paren s)"
proof (induction s rule: mul_digit_paren.induct)
  case 1
  show ?case by simp
next
  case (2 c s)
  from "2.prems" have ns: "\<not> has_paren_alnum s" and nc: "\<not> (c = rparen \<and> spaces_then is_alnum s \<noteq> None)"
    by simp_all
  show ?case
  proof (cases c s rule: digit_paren_cases)
    case skip
    with 2 ns have "\<not> has_paren_alnum (mul_digit_paren s)" by auto
    with skip nc show ?thesis
      by (auto simp: spaces_then_mul_digit_paren)
  next
    case (hit ws a r)
    from spaces_thenD [OF hit(2)] have s: "s = ws @ a # r" by simp
    from ns s have "\<not> has_paren_alnum r"
      using has_paren_alnum_suffix [of r "ws @ [a]"] by auto
    with 2 hit have ih: "\<not> has_paren_alnum (mul_digit_paren r)" by simp
    from hit digit_plain [of c] have "c \<noteq> rparen" by simp
    with hit ih show ?thesis
      by (simp add: star_plain paren_plain)
  qed
qed

lemma no_paren_paren_mul_paren_paren: "\<not> has_paren_paren (mul_paren_paren s)"
proof (induction s rule: mul_paren_paren.induct)
  case 1
  show ?case by simp
next
  case (2 c s)
  show ?case
  proof (cases c s rule: paren_paren_cases)
    case skip
    with 2 have "\<not> has_paren_paren (mul_paren_paren s)" by auto
    with skip show ?thesis
      by (auto simp: spaces_then_mul_paren_paren)
  next
    case (hit ws a r)
    from 2 hit have ih: "\<not> has_paren_paren (mul_paren_paren r)" by simp
    with hit show ?thesis
      by (simp add: star_plain paren_plain spaces_then_nonspace_Cons)
  qed
qed

lemma no_digit_letter_mul_paren_paren:
  "\<not> has_digit_letter s \<Longrightarrow> \<not> has_digit_letter (mul_paren_paren s)"
proof (induction s rule: mul_paren_paren.induct)
  case 1
  show ?case by simp
next
  case (2 c s)
  from "2.prems" have ns: "\<not> has_digit_letter s" and nc: "\<not> (is_digit c \<and> s \<noteq> [] \<and> is_letter (hd s))"
    by (simp_all add: has_digit_letter_Cons)
  show ?case
  proof (cases c s rule: paren_paren_cases)
    case skip
    with 2 ns have "\<not> has_digit_letter (mul_paren_paren s)" by auto
    moreover have "mul_paren_paren s \<noteq> [] \<and> is_letter (hd (mul_paren_paren s)) \<longleftrightarrow> s \<noteq> [] \<and> is_letter (hd s)"
      by (rule first_letter_iff, rule mul_paren_paren_Cons, simp)
    ultimately show ?thesis using skip nc
      by (auto simp: has_digit_letter_Cons)
  next
    case (hit ws a r)
    from spaces_thenD [OF hit(2)] have s: "s = ws @ a # r" by simp
    from ns s have "\<not> has_digit_letter r"
      using has_digit_letter_suffix [of r "ws @ [a]"] by auto
    with 2 hit have ih: "\<not> has_digit_letter (mul_paren_paren r)" by simp
    with hit show ?thesis
      by (simp add: has_digit_letter_Cons star_plain paren_plain)
  qed
qed

lemma no_paren_alnum_mul_paren_paren:
  "\<not> has_paren_alnum s \<Longrightarrow> \<not> has_paren_alnum (mul_paren_paren s)"
proof (induction s rule: mul_paren_paren.induct)
  case 1
  show ?case by simp
next
  case (2 c s)
  from "2.prems" have ns: "\<not> has_paren_alnum s" and nc: "\<not> (c = rparen \<and> spaces_then is_alnum s \<noteq> None)"
    by simp_all
  show ?case
  proof (cases c s rule: paren_paren_cases)
    case skip
    with 2 ns have "\<not> has_paren_alnum (mul_paren_paren s)" by auto
    with skip nc show ?thesis
      by (auto simp: spaces_then_mul_paren_paren)
  next
    case (hit ws a r)
    from spaces_thenD [OF hit(2)] have s: "s = ws @ a # r" by simp
    from ns s have "\<not> has_paren_alnum r"
      using has_paren_alnum_suffix [of r "ws @ [a]"] by auto
    with 2 hit have ih: "\<not> has_paren_alnum (mul_paren_paren r)" by simp
    with hit show ?thesis
      by (simp add: star_plain paren_plain spaces_then_nonspace_Cons)
  qed
qed

lemma no_digit_paren_mul_paren_paren:
  "\<not> has_digit_paren s \<Longrightarrow> \<not> has_digit_paren (mul_paren_paren s)"
proof (induction s rule: mul_paren_paren.induct)
  case 1
  show ?case by simp
next
  case (2 c s)
  from "2.prems" have ns: "\<not> has_digit_paren s"
    and nc: "\<not> (is_digit c \<and> spaces_then (\<lambda>x. x = lparen) s \<noteq> None)"
    by simp_all
  show ?case
  proof (cases c s rule: paren_paren_cases)
    case skip
    with 2 ns have "\<not> has_digit_paren (mul_paren_paren s)" by auto
    with skip nc show ?thesis
      by (auto simp: spaces_then_mul_paren_paren)
  next
    case (hit ws a r)
    from spaces_thenD [OF hit(2)] have s: "s = ws @ a # r" by simp
    from ns s have "\<not> has_digit_paren r"
      using has_digit_paren_suffix [of r "ws @ [a]"] by auto
    with 2 hit have ih: "\<not> has_digit_paren (mul_paren_paren r)" by simp
    with hit show ?thesis
      by (simp add: star_plain paren_plain)
  qed
qed

lemma no_implicit_mul_rewrite_ops: "\<not> implicit_mul (rewrite_ops s)"
  by (simp add: rewrite_ops_def implicit_mul_collapse)
     (simp add: implicit_mul_def no_paren_paren_mul_paren_paren
        no_digit_paren_mul_paren_paren no_digit_paren_mul_digit_paren
        no_paren_alnum_mul_paren_paren no_paren_alnum_mul_digit_paren no_paren_alnum_mul_paren_alnum
        no_digit_letter_mul_paren_paren no_digit_letter_mul_digit_paren no_digit_letter_mul_paren_alnum
        no_digit_letter_mul_digit_letter)

section \<open>What the rewrites keep\<close>

lemma no_caret_replace_caret: "caret \<notin> set (replace_caret s)"
  by (induction s) (auto simp: char_defs)

lemma filter_mul_steps:
  assumes "\<not> K star" and "\<And>c. K c \<Longrightarrow> \<not> is_space c"
  shows "filter K (collapse_spaces (mul_paren_paren (mul_digit_paren (mul_paren_alnum
           (mul_digit_letter t))))) = filter K t"
  using assms
  by (simp add: filter_collapse_spaces filter_mul_paren_paren filter_mul_digit_paren
      filter_mul_paren_alnum filter_mul_digit_letter)

lemma no_caret_rewrite_ops: "caret \<notin> set (rewrite_ops s)"
proof -
  let ?t = "replace_caret (trim s)"
  have "filter (\<lambda>x. x = caret) (rewrite_ops s) = filter (\<lambda>x. x = caret) ?t"
    unfolding rewrite_ops_def
    by (rule filter_mul_steps) (auto simp: char_defs is_space_def)
  also have "\<dots> = []"
    using no_caret_replace_caret [of "trim s"] by (auto simp: filter_empty_conv)
  finally show ?thesis by (auto simp: filter_empty_conv)
qed

lemma set_replace_first_eq:
  "set (replace_first_eq s) \<subseteq> insert minus_sign (insert lparen (set s))"
proof (induction s)
  case Nil
  show ?case by simp
next
  case (Cons c s)
  show ?case
  proof (cases "spaces_then (\<lambda>x. x = eq_sign) (c # s)")
    case None
    with Cons show ?thesis by auto
  next
    case (Some t)
    obtain ws e r where t: "t = (ws, e, r)" by (cases t) auto
    with Some have "c # s = ws @ e # r" by (simp add: spaces_thenD(1))
    then have "set r \<subseteq> set (c # s)" by (metis set_append set_subset_Cons subset_trans Un_upper2)
    moreover have "set (dropWhile is_space r) \<subseteq> set r" by (auto dest: set_dropWhileD)
    ultimately show ?thesis using Some t by auto
  qed
qed

lemma no_caret_parseString: "caret \<notin> set (parseString s)"
proof -
  have n: "caret \<noteq> minus_sign" "caret \<noteq> lparen" "caret \<noteq> rparen" by (simp_all add: char_defs)
  with set_replace_first_eq [of "rewrite_ops s"] no_caret_rewrite_ops [of s]
  show ?thesis by (auto simp: parseString_def Let_def)
qed

lemma plain_rewrite_ops: "filter plain (rewrite_ops s) = filter plain s"
  by (rule filter_rewrite_ops) (simp_all add: plain_def)

section \<open>The length of the result\<close>

lemma length_trim: "length (trim s) \<le> length s"
proof -
  have "length (trim s) \<le> length (dropWhile is_space s)"
    unfolding trim_def rstrip_def by (metis length_dropWhile_le length_rev)
  also have "\<dots> \<le> length s" by (rule length_dropWhile_le)
  finally show ?thesis .
qed

lemma length_replace_caret: "length (replace_caret s) = length s + count_list s caret"
  by (induction s) auto

lemma length_mul_digit_letter: "length (mul_digit_letter s) \<le> length s + length (filter is_digit s)"
  by (induction s rule: mul_digit_letter.induct) auto

lemma length_mul_paren_alnum: "length (mul_paren_alnum s) \<le> length s + count_list s rparen"
proof (induction s rule: mul_paren_alnum.induct)
  case 1
  show ?case by simp
next
  case (2 c s)
  show ?case
  proof (cases c s rule: paren_alnum_cases)
    case skip
    with 2 show ?thesis by auto
  next
    case (hit ws a r)
    from spaces_thenD [OF hit(2)] have s: "s = ws @ a # r" by simp
    from 2 hit have "length (mul_paren_alnum r) \<le> length r + count_list r rparen" by simp
    with hit show ?thesis by (simp add: s)
  qed
qed

lemma length_mul_digit_paren: "length (mul_digit_paren s) \<le> length s + length (filter is_digit s)"
proof (induction s rule: mul_digit_paren.induct)
  case 1
  show ?case by simp
next
  case (2 c s)
  show ?case
  proof (cases c s rule: digit_paren_cases)
    case skip
    with 2 show ?thesis by auto
  next
    case (hit ws a r)
    from spaces_thenD [OF hit(2)] have s: "s = ws @ a # r" by simp
    from 2 hit have "length (mul_digit_paren r) \<le> length r + length (filter is_digit r)" by simp
    with hit show ?thesis by (simp add: s)
  qed
qed

lemma length_mul_paren_paren: "length (mul_paren_paren s) \<le> length s + count_list s rparen"
proof (induction s rule: mul_paren_paren.induct)
  case 1
  show ?case by simp
next
  case (2 c s)
  show ?case
  proof (cases c s rule: paren_paren_cases)
    case skip
    with 2 show ?thesis by auto
  next
    case (hit ws a r)
    from spaces_thenD [OF hit(2)] have s: "s = ws @ a # r" by simp
    from 2 hit have "length (mul_paren_paren r) \<le> length r + count_list r rparen" by simp
    with hit show ?thesis by (simp add: s)
  qed
qed

lemma length_collapse_spaces: "length (collapse_spaces s) \<le> length s"
proof (induction s rule: collapse_spaces.induct)
  case 1
  show ?case by simp
next
  case (2 c s)
  have "length (dropWhile is_space s) \<le> length s" by (rule length_dropWhile_le)
  with 2 show ?case by (cases "is_space c") auto
qed

lemma length_replace_first_eq: "length (replace_first_eq s) \<le> length s + 1"
proof (induction s)
  case Nil
  show ?case by simp
next
  case (Cons c s)
  show ?case
  proof (cases "spaces_then (\<lambda>x. x = eq_sign) (c # s)")
    case None
    with Cons show ?thesis by simp
  next
    case (Some t)
    obtain ws e r where t: "t = (ws, e, r)" by (cases t) auto
    with Some have "c # s = ws @ e # r" by (simp add: spaces_thenD(1))
    then have "length (c # s) = length ws + 1 + length r" by simp
    moreover have "length (dropWhile is_space r) \<le> length r" by (rule length_dropWhile_le)
    ultimately show ?thesis using Some t by simp
  qed
qed

lemma disjoint_classes:
  "count_list s caret + length (filter is_digit s) + count_list s rparen \<le> length s"
  by (induction s) (auto simp: char_defs is_digit_def)

lemma digits_mul_steps:
  "filter is_digit (replace_caret s) = filter is_digit s"
  "filter is_digit (mul_digit_letter s) = filter is_digit s"
  "filter is_digit (mul_paren_alnum s) = filter is_digit s"
  "filter is_digit (mul_digit_paren s) = filter is_digit s"
proof -
  have k: "\<not> is_digit star" "\<not> is_digit caret" "\<And>c. is_digit c \<Longrightarrow> \<not> is_space c"
    by (auto simp: class_defs char_defs)
  show "filter is_digit (replace_caret s) = filter is_digit s"
    using k(1,2) by (rule filter_replace_caret)
  show "filter is_digit (mul_digit_letter s) = filter is_digit s"
    using k(1) by (rule filter_mul_digit_letter)
  show "filter is_digit (mul_paren_alnum s) = filter is_digit s"
    using k(1) by (rule filter_mul_paren_alnum)
  show "filter is_digit (mul_digit_paren s) = filter is_digit s"
    using k(1,3) by (rule filter_mul_digit_paren)
qed

lemma rparens_mul_steps:
  "count_list (replace_caret s) rparen = count_list s rparen"
  "count_list (mul_digit_letter s) rparen = count_list s rparen"
  "count_list (mul_paren_alnum s) rparen = count_list s rparen"
  "count_list (mul_digit_paren s) rparen = count_list s rparen"
proof -
  let ?K = "\<lambda>x. x = rparen"
  have k: "\<not> ?K star" "\<not> ?K caret" "\<And>c. ?K c \<Longrightarrow> \<not> is_space c"
    by (auto simp: class_defs char_defs)
  have "filter ?K (replace_caret s) = filter ?K s"
    using k(1,2) by (rule filter_replace_caret)
  then show "count_list (replace_caret s) rparen = count_list s rparen"
    by (simp add: count_list_filter)
  have "filter ?K (mul_digit_letter s) = filter ?K s"
    using k(1) by (rule filter_mul_digit_letter)
  then show "count_list (mul_digit_letter s) rparen = count_list s rparen"
    by (simp add: count_list_filter)
  have "filter ?K (mul_paren_alnum s) = filter ?K s"
    using k(1) by (rule filter_mul_paren_alnum)
  then show "count_list (mul_paren_alnum s) rparen = count_list s rparen"
    by (simp add: count_list_filter)
  have "filter ?K (mul_digit_paren s) = filter ?K s"
    using k(1,3) by (rule filter_mul_digit_paren)
  then show "count_list (mul_digit_paren s) rparen = count_list s rparen"
    by (simp add: count_list_filter)
qed

lemma length_rewrite_ops: "length (rewrite_ops s) \<le> 3 * length s"
proof -
  define u0 where "u0 = trim s"
  define u1 where "u1 = replace_caret u0"
  define u2 where "u2 = mul_digit_letter u1"
  define u3 where "u3 = mul_paren_alnum u2"
  define u4 where "u4 = mul_digit_paren u3"
  define u5 where "u5 = mul_paren_paren u4"
  define D where "D = length (filter is_digit u0)"
  define R where "R = count_list u0 rparen"
  have d: "length (filter is_digit u1) = D" "length (filter is_digit u3) = D"
    by (simp_all add: u1_def u2_def u3_def D_def digits_mul_steps)
  have r: "count_list u2 rparen = R" "count_list u4 rparen = R"
    by (simp_all add: u1_def u2_def u3_def u4_def R_def rparens_mul_steps)
  have "length u1 = length u0 + count_list u0 caret"
    by (simp add: u1_def length_replace_caret)
  moreover have "length u2 \<le> length u1 + D"
    using length_mul_digit_letter [of u1] by (simp add: u2_def d)
  moreover have "length u3 \<le> length u2 + R"
    using length_mul_paren_alnum [of u2] by (simp add: u3_def r)
  moreover have "length u4 \<le> length u3 + D"
    using length_mul_digit_paren [of u3] by (simp add: u4_def d)
  moreover have "length u5 \<le> length u4 + R"
    using length_mul_paren_paren [of u4] by (simp add: u5_def r)
  moreover have "length (collapse_spaces u5) \<le> length u5"
    by (rule length_collapse_spaces)
  moreover have "count_list u0 caret + D + R \<le> length u0"
    unfolding D_def R_def by (rule disjoint_classes)
  moreover have "length u0 \<le> length s"
    by (simp add: u0_def length_trim)
  moreover have "rewrite_ops s = collapse_spaces u5"
    by (simp add: rewrite_ops_def u0_def u1_def u2_def u3_def u4_def u5_def)
  ultimately show ?thesis by simp
qed

lemma length_parseString: "length (parseString s) \<le> 3 * length s + 2"
proof -
  have "length (replace_first_eq (rewrite_ops s) @ [rparen]) \<le> length (rewrite_ops s) + 2"
    using length_replace_first_eq [of "rewrite_ops s"] by simp
  with length_rewrite_ops [of s] show ?thesis
    by (simp add: parseString_def Let_def)
qed

section \<open>The rewrites as one pass\<close>

lemma spaces_then_Some:
  assumes "\<forall>x\<in>set ws. is_space x" and "\<not> is_space a" and "P a"
  shows "spaces_then P (ws @ a # r) = Some (ws, a, r)"
  using assms by (simp add: spaces_then_def dropWhile_append3 takeWhile_append2)

lemma spaces_then_cases:
  obtains (none) "spaces_then P s = None"
        | (some) ws a r where "spaces_then P s = Some (ws, a, r)"
  by (cases "spaces_then P s") auto

lemma caret_plain: "\<not> is_space caret" "\<not> is_digit caret" "\<not> is_letter caret" "\<not> is_alnum caret"
  "caret \<noteq> rparen" "caret \<noteq> lparen" "caret \<noteq> star"
  "rparen \<noteq> caret" "lparen \<noteq> caret" "star \<noteq> caret" "rparen \<noteq> lparen" "rparen \<noteq> star"
  "lparen \<noteq> star"
  by (simp_all add: class_defs char_defs)

lemmas pass_simps = mul_digit_letter.simps(1) mul_paren_alnum.simps(2) mul_digit_paren.simps(2)
  mul_paren_paren.simps(2)

text \<open>One pass over a character that it does not match.\<close>

lemma mul_digit_letter_skip:
  "\<not> is_digit c \<or> s = [] \<or> \<not> is_letter (hd s) \<Longrightarrow> mul_digit_letter (c # s) = c # mul_digit_letter s"
  by (cases s) auto

lemma mul_digit_letter_hit:
  "is_digit c \<Longrightarrow> is_letter l \<Longrightarrow> mul_digit_letter (c # l # s) = c # star # mul_digit_letter (l # s)"
  using mul_digit_letter_skip [of l s] by (auto simp: class_defs)

lemma mul_paren_alnum_skip:
  "c \<noteq> rparen \<or> spaces_then is_alnum s = None \<Longrightarrow> mul_paren_alnum (c # s) = c # mul_paren_alnum s"
  by auto

lemma mul_digit_paren_skip:
  "\<not> is_digit c \<or> spaces_then (\<lambda>x. x = lparen) s = None \<Longrightarrow> mul_digit_paren (c # s) = c # mul_digit_paren s"
  by auto

lemma mul_paren_paren_skip:
  "c \<noteq> rparen \<or> spaces_then (\<lambda>x. x = lparen) s = None \<Longrightarrow> mul_paren_paren (c # s) = c # mul_paren_paren s"
  by auto

text \<open>White space at the head is copied by every pass.\<close>

lemma replace_caret_spaces:
  "\<forall>x\<in>set ws. is_space x \<Longrightarrow> replace_caret (ws @ t) = ws @ replace_caret t"
  by (induction ws) (auto simp: space_not_class)

lemma mul_digit_letter_spaces:
  "\<forall>x\<in>set ws. is_space x \<Longrightarrow> mul_digit_letter (ws @ t) = ws @ mul_digit_letter t"
  by (induction ws) (simp_all add: mul_digit_letter_skip space_not_class)

lemma mul_paren_alnum_spaces:
  "\<forall>x\<in>set ws. is_space x \<Longrightarrow> mul_paren_alnum (ws @ t) = ws @ mul_paren_alnum t"
  by (induction ws) (simp_all add: space_not_class)

lemma mul_digit_paren_spaces:
  "\<forall>x\<in>set ws. is_space x \<Longrightarrow> mul_digit_paren (ws @ t) = ws @ mul_digit_paren t"
  by (induction ws) (simp_all add: space_not_class)

lemma mul_paren_alnum_hit:
  assumes "spaces_then is_alnum s = Some (ws, a, r)"
  shows "mul_paren_alnum (rparen # s) = rparen # star # mul_paren_alnum s"
proof -
  from spaces_thenD [OF assms] have s: "s = ws @ a # r" and ws: "\<forall>x\<in>set ws. is_space x"
    and a: "is_alnum a" by simp_all
  from a alnum_plain [of a] have "a \<noteq> rparen" by simp
  then have "mul_paren_alnum (a # r) = a # mul_paren_alnum r" by simp
  with ws s have "mul_paren_alnum s = ws @ a # mul_paren_alnum r"
    by (simp add: mul_paren_alnum_spaces)
  with assms show ?thesis by simp
qed

text \<open>What follows the white space at the head is the same before and after a pass.\<close>

lemma spaces_then_replace_caret:
  "\<not> P caret \<Longrightarrow> \<not> P star \<Longrightarrow> spaces_then P (replace_caret s) = None \<longleftrightarrow> spaces_then P s = None"
proof (induction s)
  case Nil
  show ?case by simp
next
  case (Cons c s)
  show ?case
  proof (cases "is_space c")
    case True
    with Cons show ?thesis by (simp add: spaces_then_space_Cons space_not_class)
  next
    case False
    with Cons.prems show ?thesis
      by (auto simp: spaces_then_nonspace_Cons star_plain)
  qed
qed

lemma spaces_then_mul_digit_letter:
  "spaces_then P (mul_digit_letter s) = None \<longleftrightarrow> spaces_then P s = None"
  by (rule spaces_then_step, rule mul_digit_letter_Cons, simp,
      simp add: mul_digit_letter_skip space_not_class)

lemma first_letter_replace_caret:
  "replace_caret s \<noteq> [] \<and> is_letter (hd (replace_caret s)) \<longleftrightarrow> s \<noteq> [] \<and> is_letter (hd s)"
  by (cases s) (auto simp: star_plain caret_plain)


text \<open>The passes after a string whose first character after white space is an opening parenthesis.\<close>

lemma passes_before_paren:
  assumes "spaces_then (\<lambda>x. x = lparen) s = Some (ws, a, r)"
  shows "replace_caret s = ws @ lparen # replace_caret r"
    and "mul_digit_letter (replace_caret s) = ws @ lparen # mul_digit_letter (replace_caret r)"
    and "mul_paren_alnum (mul_digit_letter (replace_caret s)) =
           ws @ lparen # mul_paren_alnum (mul_digit_letter (replace_caret r))"
    and "mul_digit_paren (mul_paren_alnum (mul_digit_letter (replace_caret s))) =
           ws @ lparen # mul_digit_paren (mul_paren_alnum (mul_digit_letter (replace_caret r)))"
proof -
  from spaces_thenD [OF assms] have s: "s = ws @ a # r" and ws: "\<forall>x\<in>set ws. is_space x"
    and a: "a = lparen" by simp_all
  from s ws a show 1: "replace_caret s = ws @ lparen # replace_caret r"
    by (simp add: replace_caret_spaces caret_plain)
  from ws show 2: "mul_digit_letter (replace_caret s) = ws @ lparen # mul_digit_letter (replace_caret r)"
    by (simp add: 1 mul_digit_letter_spaces mul_digit_letter_skip paren_plain)
  from ws show 3: "mul_paren_alnum (mul_digit_letter (replace_caret s)) =
           ws @ lparen # mul_paren_alnum (mul_digit_letter (replace_caret r))"
    by (simp add: 2 mul_paren_alnum_spaces paren_plain)
  from ws show "mul_digit_paren (mul_paren_alnum (mul_digit_letter (replace_caret s))) =
           ws @ lparen # mul_digit_paren (mul_paren_alnum (mul_digit_letter (replace_caret r)))"
    by (simp add: 3 mul_digit_paren_spaces paren_plain)
qed

lemma marker_steps_Nil: "marker_steps [] = []"
  by (simp add: marker_steps_def)

lemma marker_steps_caret: "marker_steps (caret # s) = star # star # marker_steps s"
  by (simp del: pass_simps add: marker_steps_def mul_digit_letter_skip mul_paren_alnum_skip
      mul_digit_paren_skip mul_paren_paren_skip star_plain)

lemma marker_steps_paren: "marker_steps (lparen # s) = lparen # marker_steps s"
  by (simp del: pass_simps add: marker_steps_def mul_digit_letter_skip mul_paren_alnum_skip
      mul_digit_paren_skip mul_paren_paren_skip paren_plain caret_plain)

lemma marker_steps_digit_letter:
  assumes "is_digit c" and "s \<noteq> []" and "is_letter (hd s)"
  shows "marker_steps (c # s) = c # star # marker_steps s"
proof -
  from assms obtain l r where s: "s = l # r" and l: "is_letter l" by (cases s) auto
  from l have lc: "l \<noteq> caret" "\<not> is_digit l" by (auto simp: class_defs char_defs)
  from assms(1) digit_plain [of c] have c: "c \<noteq> caret" "c \<noteq> rparen"
    by (auto simp: class_defs char_defs)
  let ?r = "replace_caret r"
  have 0: "replace_caret (c # s) = c # l # ?r" "replace_caret s = l # ?r"
    using c lc by (simp_all add: s)
  have 1: "mul_digit_letter (c # l # ?r) = c # star # mul_digit_letter (l # ?r)"
    using assms(1) l by (rule mul_digit_letter_hit)
  have 2: "mul_paren_alnum (c # star # t) = c # star # mul_paren_alnum t" for t
    using c by (simp add: star_plain)
  have "spaces_then (\<lambda>x. x = lparen) (star # t) = None" for t
    by (simp add: spaces_then_nonspace_Cons star_plain)
  then have 3: "mul_digit_paren (c # star # t) = c # star # mul_digit_paren t" for t
    by (simp del: pass_simps add: mul_digit_paren_skip star_plain)
  have 4: "mul_paren_paren (c # star # t) = c # star # mul_paren_paren t" for t
    using c by (simp add: star_plain)
  show ?thesis
    by (simp only: marker_steps_def 0 1 2 3 4)
qed

lemma marker_steps_digit_paren:
  assumes "is_digit c" and "spaces_then (\<lambda>x. x = lparen) s = Some (ws, a, r)"
  shows "marker_steps (c # s) = c # star # marker_steps (lparen # r)"
proof -
  from assms(1) digit_plain [of c] have c: "c \<noteq> caret" "c \<noteq> rparen"
    by (auto simp: class_defs char_defs)
  from spaces_thenD [OF assms(2)] have ws: "\<forall>x\<in>set ws. is_space x" by simp
  note p = passes_before_paren [OF assms(2)]
  let ?r = "mul_paren_alnum (mul_digit_letter (replace_caret r))"
  have 0: "replace_caret (c # s) = c # replace_caret s"
    using c by simp
  have "replace_caret s = [] \<or> \<not> is_letter (hd (replace_caret s))"
    using ws by (cases ws) (simp_all add: p(1) paren_plain space_not_class)
  then have 1: "mul_digit_letter (c # replace_caret s) = c # mul_digit_letter (replace_caret s)"
    by (simp add: mul_digit_letter_skip)
  have 2: "mul_paren_alnum (c # mul_digit_letter (replace_caret s)) = c # ws @ lparen # ?r"
    using c by (simp add: p(3))
  have 3: "mul_digit_paren (c # ws @ lparen # ?r) = c # star # lparen # mul_digit_paren ?r"
    using assms(1) ws by (simp add: spaces_then_Some paren_plain)
  have 4: "mul_paren_paren (c # star # lparen # t) = c # star # lparen # mul_paren_paren t" for t
    using c by (simp add: star_plain paren_plain caret_plain)
  have "marker_steps (c # s) = c # star # lparen # marker_steps r"
    by (simp only: marker_steps_def 0 1 2 3 4)
  then show ?thesis
    by (simp only: marker_steps_paren)
qed

lemma marker_steps_paren_alnum:
  assumes "spaces_then is_alnum s = Some (ws, a, r)"
  shows "marker_steps (rparen # s) = rparen # star # marker_steps s"
proof -
  let ?s = "mul_digit_letter (replace_caret s)"
  have 0: "replace_caret (rparen # s) = rparen # replace_caret s"
    by (simp add: caret_plain)
  have 1: "mul_digit_letter (rparen # replace_caret s) = rparen # ?s"
    by (simp add: mul_digit_letter_skip paren_plain)
  have "spaces_then is_alnum ?s \<noteq> None"
    using assms by (simp add: spaces_then_mul_digit_letter spaces_then_replace_caret caret_plain star_plain)
  then obtain ws' a' r' where "spaces_then is_alnum ?s = Some (ws', a', r')"
    by (cases "spaces_then is_alnum ?s") auto
  then have 2: "mul_paren_alnum (rparen # ?s) = rparen # star # mul_paren_alnum ?s"
    by (rule mul_paren_alnum_hit)
  have 3: "mul_digit_paren (rparen # star # t) = rparen # star # mul_digit_paren t" for t
    by (simp add: star_plain paren_plain)
  have "spaces_then (\<lambda>x. x = lparen) (star # t) = None" for t
    by (simp add: spaces_then_nonspace_Cons star_plain)
  then have 4: "mul_paren_paren (rparen # star # t) = rparen # star # mul_paren_paren t" for t
    by (simp del: pass_simps add: mul_paren_paren_skip star_plain)
  show ?thesis
    by (simp only: marker_steps_def 0 1 2 3 4)
qed

lemma marker_steps_paren_paren:
  assumes "spaces_then (\<lambda>x. x = lparen) s = Some (ws, a, r)"
  shows "marker_steps (rparen # s) = rparen # star # marker_steps (lparen # r)"
proof -
  from spaces_thenD [OF assms] have ws: "\<forall>x\<in>set ws. is_space x" and d: "dropWhile is_space s = a # r"
    and a: "a = lparen" by simp_all
  note p = passes_before_paren [OF assms]
  let ?s = "mul_digit_letter (replace_caret s)"
  let ?r = "mul_digit_paren (mul_paren_alnum (mul_digit_letter (replace_caret r)))"
  have 0: "replace_caret (rparen # s) = rparen # replace_caret s"
    by (simp add: caret_plain)
  have 1: "mul_digit_letter (rparen # replace_caret s) = rparen # ?s"
    by (simp add: mul_digit_letter_skip paren_plain)
  from d a have "spaces_then is_alnum s = None"
    by (simp add: spaces_then_None_iff paren_plain)
  then have "spaces_then is_alnum ?s = None"
    by (simp add: spaces_then_mul_digit_letter spaces_then_replace_caret caret_plain star_plain)
  then have 2: "mul_paren_alnum (rparen # ?s) = rparen # mul_paren_alnum ?s"
    by simp
  have 3: "mul_digit_paren (rparen # mul_paren_alnum ?s) = rparen # ws @ lparen # ?r"
    by (simp add: paren_plain p(4))
  have 4: "mul_paren_paren (rparen # ws @ lparen # ?r) = rparen # star # lparen # mul_paren_paren ?r"
    using ws by (simp add: spaces_then_Some paren_plain)
  have "marker_steps (rparen # s) = rparen # star # lparen # marker_steps r"
    by (simp only: marker_steps_def 0 1 2 3 4)
  then show ?thesis
    by (simp only: marker_steps_paren)
qed

lemma marker_steps_plain:
  assumes "c \<noteq> caret" and "\<not> site c s"
  shows "marker_steps (c # s) = c # marker_steps s"
proof -
  from assms(2) have a: "\<not> is_digit c \<or> s = [] \<or> \<not> is_letter (hd s)"
    and b: "c \<noteq> rparen \<or> spaces_then is_alnum s = None"
    and d: "\<not> is_digit c \<or> spaces_then (\<lambda>x. x = lparen) s = None"
    and e: "c \<noteq> rparen \<or> spaces_then (\<lambda>x. x = lparen) s = None"
    unfolding site_def by blast+
  from a have 1: "mul_digit_letter (c # replace_caret s) = c # mul_digit_letter (replace_caret s)"
    using first_letter_replace_caret [of s] by (intro mul_digit_letter_skip) auto
  from b have 2: "mul_paren_alnum (c # mul_digit_letter (replace_caret s)) =
      c # mul_paren_alnum (mul_digit_letter (replace_caret s))"
    by (intro mul_paren_alnum_skip)
       (auto simp: spaces_then_mul_digit_letter spaces_then_replace_caret caret_plain star_plain)
  from d have 3: "mul_digit_paren (c # mul_paren_alnum (mul_digit_letter (replace_caret s))) =
      c # mul_digit_paren (mul_paren_alnum (mul_digit_letter (replace_caret s)))"
    by (intro mul_digit_paren_skip)
       (auto simp: spaces_then_mul_paren_alnum spaces_then_mul_digit_letter spaces_then_replace_caret
          caret_plain star_plain)
  from e have 4: "mul_paren_paren (c # mul_digit_paren (mul_paren_alnum (mul_digit_letter (replace_caret s)))) =
      c # mul_paren_paren (mul_digit_paren (mul_paren_alnum (mul_digit_letter (replace_caret s))))"
    by (intro mul_paren_paren_skip)
       (auto simp: spaces_then_mul_digit_paren spaces_then_mul_paren_alnum spaces_then_mul_digit_letter
          spaces_then_replace_caret caret_plain star_plain)
  from assms(1) have 0: "replace_caret (c # s) = c # replace_caret s"
    by simp
  show ?thesis
    by (simp only: marker_steps_def 0 1 2 3 4)
qed

text \<open>The passes of the source write what the single pass writes.\<close>

lemma marker_steps_insert_markers: "marker_steps t = insert_markers t"
proof (induction t rule: insert_markers.induct)
  case 1
  show ?case by (simp add: marker_steps_Nil)
next
  case (2 c s)
  show ?case
  proof (cases "c = caret")
    case True
    with 2 show ?thesis by (simp add: marker_steps_caret)
  next
    case nc: False
    show ?thesis
    proof (cases "site c s")
      case False
      with nc 2 show ?thesis by (simp add: marker_steps_plain)
    next
      case True
      show ?thesis
      proof (cases "(\<lambda>x. x = lparen)" s rule: spaces_then_cases)
        case (some ws a r)
        from spaces_thenD [OF some] have d: "dropWhile is_space s = lparen # r" by simp
        from True some have "is_digit c \<or> c = rparen"
          by (auto simp: site_def)
        with some have "marker_steps (c # s) = c # star # marker_steps (lparen # r)"
          by (auto simp: marker_steps_digit_paren marker_steps_paren_paren)
        with nc True some d 2 show ?thesis by simp
      next
        case none
        with True have "(is_digit c \<and> s \<noteq> [] \<and> is_letter (hd s)) \<or>
            (c = rparen \<and> spaces_then is_alnum s \<noteq> None)"
          by (auto simp: site_def)
        then have "marker_steps (c # s) = c # star # marker_steps s"
          by (auto simp: marker_steps_digit_letter marker_steps_paren_alnum)
        with nc True none 2 show ?thesis by simp
      qed
    qed
  qed
qed

lemma rewrite_ops_insert_markers: "rewrite_ops s = collapse_spaces (insert_markers (trim s))"
  using marker_steps_insert_markers [of "trim s"] by (simp add: rewrite_ops_def marker_steps_def)

text \<open>The number of multiplication signs.\<close>

lemma site_space: "is_space c \<Longrightarrow> \<not> site c s"
  by (simp add: site_def space_not_class)

lemma count_sites_dropWhile: "count_sites (dropWhile is_space s) = count_sites s"
  by (induction s) (simp_all add: site_space)

lemma count_sites_spaces: "\<forall>x\<in>set l. is_space x \<Longrightarrow> count_sites l = 0"
  by (induction l) (simp_all add: site_space)

lemma spaces_then_spaces: "\<forall>x\<in>set l. is_space x \<Longrightarrow> spaces_then P l = None"
proof -
  assume "\<forall>x\<in>set l. is_space x"
  then have "dropWhile is_space l = []" by simp
  then show ?thesis by (simp add: spaces_then_def del: dropWhile_eq_Nil_conv)
qed

lemma spaces_then_rstrip: "spaces_then P (rstrip l) = None \<longleftrightarrow> spaces_then P l = None"
proof (induction l)
  case Nil
  show ?case by (simp add: rstrip_def)
next
  case (Cons x l)
  show ?case
  proof (cases "\<forall>y\<in>set (x # l). is_space y")
    case True
    then have "rstrip (x # l) = []" "spaces_then P (x # l) = None"
      by (rule rstrip_spaces, rule spaces_then_spaces)
    then show ?thesis by (simp add: spaces_then_def)
  next
    case False
    then have r: "rstrip (x # l) = x # rstrip l" by (rule rstrip_Cons)
    show ?thesis
    proof (cases "is_space x")
      case True
      with Cons r show ?thesis by (simp add: spaces_then_space_Cons)
    next
      case False
      with r show ?thesis by (simp add: spaces_then_nonspace_Cons)
    qed
  qed
qed

lemma first_letter_rstrip:
  "rstrip l \<noteq> [] \<and> is_letter (hd (rstrip l)) \<longleftrightarrow> l \<noteq> [] \<and> is_letter (hd l)"
proof (cases l)
  case Nil
  then show ?thesis by (simp add: rstrip_def)
next
  case (Cons x r)
  show ?thesis
  proof (cases "\<forall>y\<in>set (x # r). is_space y")
    case True
    then have "is_space x" by simp
    with True Cons show ?thesis by (simp add: rstrip_spaces space_not_class del: set_simps)
  next
    case False
    then have "rstrip (x # r) = x # rstrip r" by (rule rstrip_Cons)
    with Cons show ?thesis by simp
  qed
qed

lemma site_rstrip: "site c (rstrip l) \<longleftrightarrow> site c l"
  by (simp only: site_def first_letter_rstrip spaces_then_rstrip)

lemma count_sites_rstrip: "count_sites (rstrip l) = count_sites l"
proof (induction l)
  case Nil
  show ?case by (simp add: rstrip_def)
next
  case (Cons x l)
  show ?case
  proof (cases "\<forall>y\<in>set (x # l). is_space y")
    case True
    then have "rstrip (x # l) = []" "count_sites (x # l) = 0"
      by (rule rstrip_spaces, rule count_sites_spaces)
    then show ?thesis by simp
  next
    case False
    then have "rstrip (x # l) = x # rstrip l" by (rule rstrip_Cons)
    with Cons show ?thesis by (simp add: site_rstrip)
  qed
qed

lemma count_sites_trim: "count_sites (trim s) = count_sites s"
  by (simp add: trim_def count_sites_rstrip count_sites_dropWhile)

lemma count_insert_markers:
  "count_list (insert_markers t) star = count_list t star + 2 * count_list t caret + count_sites t"
proof (induction t rule: insert_markers.induct)
  case 1
  show ?case by simp
next
  case (2 c s)
  show ?case
  proof (cases "c = caret")
    case True
    then have "\<not> site c s" by (simp add: site_def caret_plain)
    with True 2 show ?thesis by (simp add: caret_plain)
  next
    case nc: False
    show ?thesis
    proof (cases "site c s")
      case False
      with nc 2 show ?thesis by simp
    next
      case True
      then have "c \<noteq> star" by (auto simp: site_def star_plain)
      show ?thesis
      proof (cases "(\<lambda>x. x = lparen)" s rule: spaces_then_cases)
        case none
        with nc True 2 \<open>c \<noteq> star\<close> show ?thesis by simp
      next
        case (some ws a r)
        have "count_list (dropWhile is_space s) star = count_list s star"
          "count_list (dropWhile is_space s) caret = count_list s caret"
          by (simp_all add: count_dropWhile_space star_plain caret_plain)
        with nc True 2 \<open>c \<noteq> star\<close> some show ?thesis
          by (simp add: count_sites_dropWhile)
      qed
    qed
  qed
qed

lemma count_collapse_spaces:
  assumes "\<not> is_space c"
  shows "count_list (collapse_spaces s) c = count_list s c"
proof -
  have "filter (\<lambda>x. x = c) (collapse_spaces s) = filter (\<lambda>x. x = c) s"
    by (rule filter_collapse_spaces) (use assms in auto)
  then show ?thesis by (simp add: count_list_filter)
qed

lemma count_trim:
  assumes "\<not> is_space c"
  shows "count_list (trim s) c = count_list s c"
proof -
  have "filter (\<lambda>x. x = c) (trim s) = filter (\<lambda>x. x = c) s"
    by (rule filter_trim) (use assms in auto)
  then show ?thesis by (simp add: count_list_filter)
qed

lemma count_star_rewrite_ops:
  "count_list (rewrite_ops s) star = count_list s star + 2 * count_list s caret + count_sites s"
  by (simp only: rewrite_ops_insert_markers count_collapse_spaces [OF star_plain(1)]
      count_insert_markers count_trim [OF star_plain(1)] count_trim [OF caret_plain(1)]
      count_sites_trim)

lemma count_star_replace_first_eq: "count_list (replace_first_eq p) star = count_list p star"
proof (induction p)
  case Nil
  show ?case by simp
next
  case (Cons c p)
  show ?case
  proof (cases "(\<lambda>x. x = eq_sign)" "c # p" rule: spaces_then_cases)
    case none
    with Cons show ?thesis by simp
  next
    case (some ws a r)
    note d = spaces_thenD [OF some]
    from d(1) have s: "c # p = ws @ a # r" .
    from d(2) have ws: "\<forall>x\<in>set ws. is_space x" .
    from d(4) have a: "a = eq_sign" .
    from ws have "star \<notin> set ws"
      using star_plain(1) by blast
    then have w0: "count_list ws star = 0"
      by (simp add: count_list_0_iff)
    have n: "eq_sign \<noteq> star" "minus_sign \<noteq> star" "lparen \<noteq> star"
      by (simp_all add: char_defs)
    have 1: "count_list (ws @ a # r) star = count_list r star"
      using n by (simp add: w0 a)
    have 2: "replace_first_eq (c # p) = minus_sign # lparen # dropWhile is_space r"
      by (simp only: replace_first_eq.simps some option.case prod.case)
    have 3: "count_list (minus_sign # lparen # dropWhile is_space r) star = count_list r star"
      using n by (simp add: count_dropWhile_space star_plain)
    show ?thesis
      unfolding 2 3 by (simp only: s 1)
  qed
qed

lemma count_star_parseString:
  "count_list (parseString s) star = count_list s star + 2 * count_list s caret + count_sites s"
  using count_star_rewrite_ops [of s]
  by (simp add: parseString_def Let_def count_star_replace_first_eq caret_plain)

lemma implicit_mul_Cons: "implicit_mul (c # s) \<longleftrightarrow> site c s \<or> implicit_mul s"
  unfolding implicit_mul_def site_def has_digit_letter_Cons
  by (simp only: has_paren_alnum.simps has_digit_paren.simps has_paren_paren.simps) blast

lemma implicit_mul_count_sites: "implicit_mul s \<longleftrightarrow> 0 < count_sites s"
proof (induction s)
  case Nil
  show ?case by (simp add: implicit_mul_def)
next
  case (Cons c s)
  then show ?case by (simp add: implicit_mul_Cons)
qed

lemma eq_sign_rewrite_ops: "eq_sign \<in> set (rewrite_ops s) \<longleftrightarrow> eq_sign \<in> set s"
proof -
  have "count_list (rewrite_ops s) eq_sign = count_list s eq_sign"
    by (rule count_rewrite_ops) (simp_all add: char_defs is_space_def)
  then show ?thesis by (metis count_list_0_iff)
qed

lemma parseString_insert_markers:
  "parseString s =
     (if eq_sign \<in> set s then replace_first_eq (collapse_spaces (insert_markers (trim s))) @ js '')''
      else collapse_spaces (insert_markers (trim s)))"
proof -
  have "js '')'' = [rparen]" by (simp add: js_def char_defs)
  then show ?thesis
    using eq_sign_rewrite_ops [of s]
    by (simp add: parseString_def Let_def rewrite_ops_insert_markers)
qed

section \<open>The claims about \<^verbatim>\<open>parseExpression\<close>\<close>

text \<open>
  Claim C5. Where the input contains \<open>=\<close>, the rewritten string still contains it, and
  \<^verbatim>\<open>parseExpression\<close> splits that string once, at its first \<open>=\<close>: the result is
  the left part without the white space at its end, then \<open>-(\<close>, then the right part
  without the white space at its start, then \<open>)\<close>. One \<open>=\<close> is consumed and every
  later one stays. In particular \<open>x+1=3\<close> becomes \<open>x+1-(3)\<close>.
\<close>

theorem equation_form:
  "(eq_sign \<in> set s \<longrightarrow>
     (\<exists>lhs rhs. rewrite_ops s = lhs @ eq_sign # rhs \<and> eq_sign \<notin> set lhs \<and>
        parseExpression (JSString s) =
          (JSString (rstrip lhs @ js ''-('' @ dropWhile is_space rhs @ js '')'') :: 'n jsval) \<and>
        count_list (rstrip lhs @ js ''-('' @ dropWhile is_space rhs @ js '')'') eq_sign + 1 =
          count_list s eq_sign)) \<and>
   parseExpression (JSString (js ''x+1=3'')) = (JSString (js ''x+1-(3)'') :: 'n jsval) \<and>
   parseExpression (JSString (js ''a = b = c'')) = (JSString (js ''a-(b = c)'') :: 'n jsval)"
proof (intro conjI impI)
  assume e: "eq_sign \<in> set s"
  have n: "eq_sign \<noteq> star" "eq_sign \<noteq> caret" "eq_sign \<noteq> minus_sign" "eq_sign \<noteq> lparen"
    "eq_sign \<noteq> rparen"
    by (simp_all add: char_defs)
  from n have c: "count_list (rewrite_ops s) eq_sign = count_list s eq_sign"
    by (simp add: count_rewrite_ops not_space_eq_sign)
  from e have "count_list s eq_sign \<noteq> 0" by (simp add: count_list_0_iff)
  with c have "count_list (rewrite_ops s) eq_sign \<noteq> 0" by simp
  then have m: "eq_sign \<in> set (rewrite_ops s)" by (simp only: count_list_0_iff not_not)
  then obtain lhs rhs where sp: "rewrite_ops s = lhs @ eq_sign # rhs" "eq_sign \<notin> set lhs"
    by (meson split_list_first)
  have lit: "js ''-('' = [minus_sign, lparen]" "js '')'' = [rparen]"
    by (simp_all add: js_def char_defs)
  from m sp have p: "parseString s = rstrip lhs @ js ''-('' @ dropWhile is_space rhs @ js '')''"
    by (simp add: parseString_def replace_first_eq_split lit)
  from sp(2) have l0: "count_list (rstrip lhs) eq_sign = 0"
    using set_rstrip [of lhs] by (auto simp: count_list_0_iff)
  have r0: "count_list (dropWhile is_space rhs) eq_sign = count_list rhs eq_sign"
    by (simp add: count_dropWhile_space not_space_eq_sign)
  from sp have "count_list (rewrite_ops s) eq_sign = count_list rhs eq_sign + 1"
    by simp
  with c l0 r0 n have k: "count_list (rstrip lhs @ js ''-('' @ dropWhile is_space rhs @ js '')'') eq_sign + 1 =
          count_list s eq_sign"
    by (simp add: lit)
  from sp p k show "\<exists>lhs rhs. rewrite_ops s = lhs @ eq_sign # rhs \<and> eq_sign \<notin> set lhs \<and>
        parseExpression (JSString s) =
          (JSString (rstrip lhs @ js ''-('' @ dropWhile is_space rhs @ js '')'') :: 'n jsval) \<and>
        count_list (rstrip lhs @ js ''-('' @ dropWhile is_space rhs @ js '')'') eq_sign + 1 =
          count_list s eq_sign"
    by (auto simp: parseExpression_def)
next
  show "parseExpression (JSString (js ''x+1=3'')) = (JSString (js ''x+1-(3)'') :: 'n jsval)"
    by (simp add: parseExpression_def eval_defs)
next
  show "parseExpression (JSString (js ''a = b = c'')) = (JSString (js ''a-(b = c)'') :: 'n jsval)"
    by (simp add: parseExpression_def eval_defs)
qed

theorem equation_form_witness:
  "eq_sign \<in> set (js ''2x = 4 = y'') \<and>
   (\<exists>lhs rhs. rewrite_ops (js ''2x = 4 = y'') = lhs @ eq_sign # rhs \<and> eq_sign \<notin> set lhs \<and>
        parseExpression (JSString (js ''2x = 4 = y'') :: int jsval) =
          JSString (rstrip lhs @ js ''-('' @ dropWhile is_space rhs @ js '')'')) \<and>
   parseExpression (JSString (js ''2x = 4 = y'') :: int jsval) = JSString (js ''2*x-(4 = y)'')"
proof -
  have e: "eq_sign \<in> set (js ''2x = 4 = y'')"
    by (simp add: js_def eq_sign_def)
  have v: "parseExpression (JSString (js ''2x = 4 = y'') :: int jsval) = JSString (js ''2*x-(4 = y)'')"
    by (simp add: parseExpression_def eval_defs)
  from equation_form [of "js ''2x = 4 = y''"] e v show ?thesis
    by blast
qed

text \<open>
  Claim C6. \<^verbatim>\<open>parseExpression\<close> writes one multiplication sign between \<open>2\<close> and
  \<open>x\<close> in \<open>2x\<close>, between \<open>3\<close> and \<open>(\<close> in \<open>3(x+1)\<close>, between the groups of
  \<open>(x+1)(x-1)\<close>, after the group of \<open>(x+1)2\<close> and of \<open>(x+1) y\<close>, and turns \<open>x^2\<close>
  into \<open>x**2\<close>. On every string, with or without \<open>=\<close>, the result is that of the single
  pass \<open>insert_markers\<close> over the trimmed input (\<open>**\<close> for each \<open>^\<close>, one \<open>*\<close> at each
  place where a multiplication is implied, every other character copied), followed by
  the collapse of white space and the rewrite of the equation. So the result holds no
  \<open>^\<close>, and it holds as many \<open>*\<close> as the input, plus two for each \<open>^\<close> of the input,
  plus one for each place of the input. The places are those of \<open>implicit_mul\<close>. On a
  string without \<open>=\<close> no place is left in the result, and apart from white space, \<open>*\<close>
  and \<open>^\<close> its characters are those of the input, in the same order.
\<close>

theorem multiplication_and_power:
  "parseExpression (JSString (js ''2x'')) = (JSString (js ''2*x'') :: 'n jsval) \<and>
   parseExpression (JSString (js ''3(x+1)'')) = (JSString (js ''3*(x+1)'') :: 'n jsval) \<and>
   parseExpression (JSString (js ''(x+1)(x-1)'')) = (JSString (js ''(x+1)*(x-1)'') :: 'n jsval) \<and>
   parseExpression (JSString (js ''x^2'')) = (JSString (js ''x**2'') :: 'n jsval) \<and>
   parseExpression (JSString (js ''(x+1)2'')) = (JSString (js ''(x+1)*2'') :: 'n jsval) \<and>
   parseExpression (JSString (js ''(x+1) y'')) = (JSString (js ''(x+1)* y'') :: 'n jsval) \<and>
   parseExpression (JSString (js ''y^3 = 2 (x)(y)'')) = (JSString (js ''y**3-(2*(x)*(y))'') :: 'n jsval) \<and>
   parseExpression (JSString s) =
     (JSString (if eq_sign \<in> set s
                then replace_first_eq (collapse_spaces (insert_markers (trim s))) @ js '')''
                else collapse_spaces (insert_markers (trim s))) :: 'n jsval) \<and>
   (\<exists>t. parseExpression (JSString s) = (JSString t :: 'n jsval) \<and> caret \<notin> set t \<and>
        count_list t star = count_list s star + 2 * count_list s caret + count_sites s) \<and>
   (implicit_mul s \<longleftrightarrow> 0 < count_sites s) \<and>
   (eq_sign \<notin> set s \<longrightarrow>
      (\<exists>t. parseExpression (JSString s) = (JSString t :: 'n jsval) \<and> \<not> implicit_mul t \<and>
           filter plain t = filter plain s))"
proof (intro conjI impI)
  show "parseExpression (JSString (js ''2x'')) = (JSString (js ''2*x'') :: 'n jsval)"
    by (simp add: parseExpression_def eval_defs)
  show "parseExpression (JSString (js ''3(x+1)'')) = (JSString (js ''3*(x+1)'') :: 'n jsval)"
    by (simp add: parseExpression_def eval_defs)
  show "parseExpression (JSString (js ''(x+1)(x-1)'')) = (JSString (js ''(x+1)*(x-1)'') :: 'n jsval)"
    by (simp add: parseExpression_def eval_defs)
  show "parseExpression (JSString (js ''x^2'')) = (JSString (js ''x**2'') :: 'n jsval)"
    by (simp add: parseExpression_def eval_defs)
  show "parseExpression (JSString (js ''(x+1)2'')) = (JSString (js ''(x+1)*2'') :: 'n jsval)"
    by (simp add: parseExpression_def eval_defs)
  show "parseExpression (JSString (js ''(x+1) y'')) = (JSString (js ''(x+1)* y'') :: 'n jsval)"
    by (simp add: parseExpression_def eval_defs)
  show "parseExpression (JSString (js ''y^3 = 2 (x)(y)'')) = (JSString (js ''y**3-(2*(x)*(y))'') :: 'n jsval)"
    by (simp add: parseExpression_def eval_defs)
  show "parseExpression (JSString s) =
     (JSString (if eq_sign \<in> set s
                then replace_first_eq (collapse_spaces (insert_markers (trim s))) @ js '')''
                else collapse_spaces (insert_markers (trim s))) :: 'n jsval)"
    using parseString_insert_markers [of s] by (simp add: parseExpression_def)
  show "\<exists>t. parseExpression (JSString s) = (JSString t :: 'n jsval) \<and> caret \<notin> set t \<and>
        count_list t star = count_list s star + 2 * count_list s caret + count_sites s"
    by (simp add: parseExpression_def no_caret_parseString count_star_parseString)
  show "implicit_mul s \<longleftrightarrow> 0 < count_sites s"
    by (rule implicit_mul_count_sites)
next
  assume e: "eq_sign \<notin> set s"
  have "count_list (rewrite_ops s) eq_sign = count_list s eq_sign"
    by (rule count_rewrite_ops) (simp_all add: char_defs is_space_def)
  with e have "eq_sign \<notin> set (rewrite_ops s)" by (simp add: count_list_0_iff)
  then have "parseString s = rewrite_ops s" by (simp add: parseString_def)
  then show "\<exists>t. parseExpression (JSString s) = (JSString t :: 'n jsval) \<and> \<not> implicit_mul t \<and>
           filter plain t = filter plain s"
    by (simp add: parseExpression_def no_implicit_mul_rewrite_ops plain_rewrite_ops)
qed

theorem multiplication_and_power_witness:
  "eq_sign \<notin> set (js ''2x(x+1)^2 (x-1)'') \<and>
   parseExpression (JSString (js ''2x(x+1)^2 (x-1)'') :: int jsval) = JSString (js ''2*x(x+1)**2*(x-1)'') \<and>
   collapse_spaces (insert_markers (trim (js ''2x(x+1)^2 (x-1)''))) = js ''2*x(x+1)**2*(x-1)'' \<and>
   count_sites (js ''2x(x+1)^2 (x-1)'') = 2 \<and>
   count_list (js ''2*x(x+1)**2*(x-1)'') star = 0 + 2 * 1 + 2 \<and>
   \<not> implicit_mul (js ''2*x(x+1)**2*(x-1)'') \<and>
   filter plain (js ''2*x(x+1)**2*(x-1)'') = filter plain (js ''2x(x+1)^2 (x-1)'')"
proof -
  let ?s = "js ''2x(x+1)^2 (x-1)''"
  let ?t = "js ''2*x(x+1)**2*(x-1)''"
  note inst = multiplication_and_power [of ?s, where ?'n = int]
  have e: "eq_sign \<notin> set ?s"
    by (simp add: js_def eq_sign_def)
  have v: "parseExpression (JSString ?s :: int jsval) = JSString ?t"
    by (simp add: parseExpression_def eval_defs)
  have k: "count_sites ?s = 2"
    by (simp add: site_def eval_defs)
  have c: "count_list ?s star = 0" "count_list ?s caret = 1"
    by (simp_all add: js_def char_defs)
  from inst have g1: "parseExpression (JSString ?s) =
     (JSString (if eq_sign \<in> set ?s
                then replace_first_eq (collapse_spaces (insert_markers (trim ?s))) @ js '')''
                else collapse_spaces (insert_markers (trim ?s))) :: int jsval)"
    by blast
  from inst have g2: "\<exists>t. parseExpression (JSString ?s) = (JSString t :: int jsval) \<and> caret \<notin> set t \<and>
        count_list t star = count_list ?s star + 2 * count_list ?s caret + count_sites ?s"
    by blast
  from inst e have g3: "\<exists>t. parseExpression (JSString ?s :: int jsval) = JSString t \<and> \<not> implicit_mul t \<and>
           filter plain t = filter plain ?s"
    by blast
  from g1 e have "parseExpression (JSString ?s) =
      (JSString (collapse_spaces (insert_markers (trim ?s))) :: int jsval)"
    by (simp only: if_False)
  with v have 1: "collapse_spaces (insert_markers (trim ?s)) = ?t"
    by simp
  from g2 obtain t where "parseExpression (JSString ?s) = (JSString t :: int jsval)"
    and "count_list t star = count_list ?s star + 2 * count_list ?s caret + count_sites ?s"
    by blast
  with v have 2: "count_list ?t star = count_list ?s star + 2 * count_list ?s caret + count_sites ?s"
    by simp
  from g3 obtain u where "parseExpression (JSString ?s) = (JSString u :: int jsval)"
    and "\<not> implicit_mul u" and "filter plain u = filter plain ?s"
    by blast
  with v have 3: "\<not> implicit_mul ?t" "filter plain ?t = filter plain ?s"
    by simp_all
  from 2 k c have 4: "count_list ?t star = 0 + 2 * 1 + 2" by simp
  from e v 1 k 4 3 show ?thesis by blast
qed

text \<open>
  Claim C7. A string in engine-acceptable form (no \<open>^\<close>, no \<open>=\<close>, no place where a
  multiplication sign would be written, no redundant white space) is parsed to a string
  that parsing leaves unchanged: \<^verbatim>\<open>parseExpression\<close> is idempotent on such strings.
\<close>

theorem parseExpression_idempotent:
  assumes "engine_form s"
  shows "parseExpression (parseExpression (JSString s)) = (parseExpression (JSString s) :: 'n jsval)"
proof -
  let ?t = "collapse_spaces s"
  from assms have a: "caret \<notin> set s" "eq_sign \<notin> set s" "\<not> implicit_mul s" "trimmed s"
    by (simp_all add: engine_form_def)
  then have p: "parseString s = ?t" by (rule parseString_engine_form)
  have n: "caret \<noteq> space_char" "eq_sign \<noteq> space_char" by (simp_all add: char_defs)
  with a set_collapse [of s] have "caret \<notin> set ?t" "eq_sign \<notin> set ?t" by auto
  moreover from a have "\<not> implicit_mul ?t" by (simp add: implicit_mul_collapse)
  moreover from a have "trimmed ?t" by (simp add: trimmed_collapse)
  ultimately have "parseString ?t = collapse_spaces ?t" by (rule parseString_engine_form)
  then have "parseString ?t = ?t" by (simp add: collapse_idem)
  with p show ?thesis by (simp add: parseExpression_def)
qed

theorem parseExpression_idempotent_witness:
  "engine_form (js ''2*x**2 + 3*(x - 1)'') \<and>
   parseExpression (parseExpression (JSString (js ''2*x**2 + 3*(x - 1)''))) =
     (parseExpression (JSString (js ''2*x**2 + 3*(x - 1)'')) :: int jsval)"
proof -
  have e: "engine_form (js ''2*x**2 + 3*(x - 1)'')"
    by (simp add: engine_form_def implicit_mul_def trimmed_def eval_defs)
  from e parseExpression_idempotent [OF e] show ?thesis by simp
qed

text \<open>
  Claim C8. On every string, the empty one and malformed ones included,
  \<^verbatim>\<open>parseExpression\<close> returns a string: no step of it can raise, and each rewrite is a
  terminating recursion over the input. The result is at most three times as long as
  the input, plus two characters. The empty string is returned as it is.
\<close>

theorem parseExpression_total:
  "(\<exists>t. parseExpression (JSString s) = (JSString t :: 'n jsval) \<and>
        length t \<le> 3 * length s + 2 \<and>
        typeof (parseExpression (JSString s) :: 'n jsval) = ''string'') \<and>
   parseExpression (JSString []) = (JSString [] :: 'n jsval)"
proof -
  have "parseString [] = []"
    by (simp add: parseString_def rewrite_ops_def trim_def rstrip_def)
  with length_parseString [of s] show ?thesis
    by (simp add: parseExpression_def)
qed

text \<open>
  Claim C9. A value that is not a string (\<^verbatim>\<open>typeof expr !== "string"\<close>) is returned
  unchanged: it is neither rejected nor turned into a string.
\<close>

theorem parseExpression_non_string:
  "typeof expr \<noteq> ''string'' \<Longrightarrow> parseExpression expr = expr"
  by (simp add: parseExpression_def)

theorem parseExpression_non_string_witness:
  "typeof (JSNumber (3::int)) \<noteq> ''string'' \<and> parseExpression (JSNumber (3::int)) = JSNumber 3 \<and>
   typeof (JSNull :: int jsval) \<noteq> ''string'' \<and> parseExpression (JSNull :: int jsval) = JSNull"
  using parseExpression_non_string [of "JSNumber (3::int)"]
    parseExpression_non_string [of "JSNull :: int jsval"]
  by simp

section \<open>Facts about the bridge and the sampler\<close>

lemmas bridge_defs = runSympyCommand_def runSympyCommand_raw_def commandBody_def py_command_def
  py_command_raw_def try_body_def try_body_raw_def literal_safe_def

lemma demo_engine_simps:
  "ready demo_engine" 
  "sympify demo_engine s = (if s = js ''('' then Inl (PyException (js ''SympifyError'')) else Inr s)"
  "run_latex demo_engine a e = Inr e"
  "run_raw demo_engine a e = Inr e"
  by (simp_all add: demo_engine_def)

lemma body_exception_converted:
  assumes "ready eng" and "sympify eng exprParsed = Inr expr"
    and "commandBody command = Some (Act a)" and "run_latex eng a expr = Inl (PyException m)"
  shows "runSympyCommand eng exprParsed command = Returned (js ''Error: '' @ m)"
    and "startsWith (js ''Error: '' @ m) (js ''Error:'')"
  using assms
  by (simp_all add: runSympyCommand_def py_command_def try_body_def startsWith_def js_def)






text \<open>Rounding to a double.\<close>

lemma round_half_even_of_int: "round_half_even (of_int k) = k"
  by (simp add: round_half_even_def)

lemma round_double_0: "round_double 0 = Finite 0"
  by (simp add: round_double_def)

lemma round_double_binade:
  assumes "2 powi e \<le> \<bar>x\<bar>" and "\<bar>x\<bar> < 2 powi (e + 1)" and "- 1022 \<le> e"
  shows "round_double x =
     (let ulp = 2 powi (e - 52);
          r = of_int (round_half_even (x / ulp)) * ulp
      in if 2 powi 1024 \<le> r then PosInf
         else if r \<le> - (2 powi 1024) then NegInf
         else Finite r)"
proof -
  have "0 < (2::real) powi e" by simp
  with assms(1) have p: "0 < \<bar>x\<bar>" by linarith
  then have "x \<noteq> 0" by simp
  have a: "(2::real) powr real_of_int (e + 1) = 2 powi (e + 1)"
    by (rule powr_real_of_int') simp_all
  have b: "(2::real) powr real_of_int e = 2 powi e"
    by (rule powr_real_of_int') simp_all
  from a have "(2::real) powr (real_of_int e + 1) = 2 powi (e + 1)"
    by (simp only: of_int_add of_int_1)
  with b have "\<lfloor>log 2 \<bar>x\<bar>\<rfloor> = e"
    using assms(1,2) p by (simp add: floor_log_eq_powr_iff)
  with \<open>x \<noteq> 0\<close> assms(3) show ?thesis
    by (simp add: round_double_def max_def)
qed


lemma round_double_of_int:
  assumes "\<bar>k\<bar> < 2 ^ 53"
  shows "round_double (of_int k) = Finite (of_int k)"
proof (cases "k = 0")
  case True
  then show ?thesis by (simp add: round_double_0)
next
  case False
  define x :: real where "x = of_int k"
  define e where "e = \<lfloor>log 2 \<bar>x\<bar>\<rfloor>"
  from False have "1 \<le> \<bar>k\<bar>" by simp
  then have "(1::real) \<le> of_int \<bar>k\<bar>" by (simp only: of_int_1_le_iff)
  then have x1: "1 \<le> \<bar>x\<bar>" by (simp add: x_def)
  from assms have "(of_int \<bar>k\<bar> :: real) < 2 ^ 53" by simp
  then have x53: "\<bar>x\<bar> < 2 ^ 53" by (simp add: x_def)
  have a: "(2::real) powr real_of_int (e + 1) = 2 powi (e + 1)"
    by (rule powr_real_of_int') simp_all
  have b: "(2::real) powr real_of_int e = 2 powi e"
    by (rule powr_real_of_int') simp_all
  from a have a': "(2::real) powr (real_of_int e + 1) = 2 powi (e + 1)"
    by (simp only: of_int_add of_int_1)
  from x1 have "0 < \<bar>x\<bar>" by linarith
  then have "2 powr real_of_int e \<le> \<bar>x\<bar> \<and> \<bar>x\<bar> < 2 powr (real_of_int e + 1)"
    using floor_log_eq_powr_iff [of "\<bar>x\<bar>" 2 e] by (simp add: e_def)
  with a' b have bd: "2 powi e \<le> \<bar>x\<bar>" "\<bar>x\<bar> < 2 powi (e + 1)" by simp_all
  from x1 have e0: "0 \<le> e" by (simp add: e_def)
  from bd(1) x53 have "(2::real) powi e < 2 powi 53" by simp
  then have "e < 53" by (rule power_int_le_imp_less_exp [rotated]) simp_all
  define m where "m = nat (52 - e)"
  from \<open>e < 53\<close> have "e - 52 = - int m" by (simp add: m_def)
  then have u: "(2::real) powi (e - 52) = 1 / 2 ^ m"
    by (simp add: power_int_minus_divide)
  have "x / 2 powi (e - 52) = of_int (k * 2 ^ m)"
    by (simp add: u x_def)
  then have "round_half_even (x / 2 powi (e - 52)) = k * 2 ^ m"
    by (simp only: round_half_even_of_int)
  then have r: "of_int (round_half_even (x / 2 powi (e - 52))) * 2 powi (e - 52) = x"
    by (simp add: u x_def)
  have "(2::real) ^ 53 \<le> 2 powi 1024" by simp
  with x53 have big: "x < 2 powi 1024" "- (2 powi 1024) < x" by linarith+
  from e0 have "- 1022 \<le> e" by simp
  from round_double_binade [OF bd this] r big show ?thesis
    by (simp add: Let_def x_def)
qed

lemma round_double_numeral:
  "numeral n < (2::int) ^ 53 \<Longrightarrow> round_double (numeral n) = Finite (numeral n)"
  "numeral n < (2::int) ^ 53 \<Longrightarrow> round_double (- numeral n) = Finite (- numeral n)"
  "round_double 1 = Finite 1"
  using round_double_of_int [of "numeral n"] round_double_of_int [of "- numeral n"]
    round_double_of_int [of 1]
  by simp_all

lemma round_double_nat: "n < 2 ^ 53 \<Longrightarrow> round_double (real n) = Finite (real n)"
  using round_double_of_int [of "int n"] by simp

lemma is_double_numeral:
  "numeral n < (2::int) ^ 53 \<Longrightarrow> is_double (numeral n)"
  "numeral n < (2::int) ^ 53 \<Longrightarrow> is_double (- numeral n)"
  "is_double 0" "is_double 1"
  by (simp_all add: is_double_def round_double_numeral round_double_0)

text \<open>The script and the parsing of its result.\<close>

lemmas sampler_defs = computeXYWithPyodide_def py_sample_def JSON_parse_def


lemma demo_engine_sampler:
  "ready demo_engine" 
  "sympify demo_engine s = (if s = js ''('' then Inl (PyException (js ''SympifyError'')) else Inr s)"
  "lambdify demo_engine e = Inr (\<lambda>pts.
         Inr (map (\<lambda>x. if e = js ''1/x'' then numpy_reciprocal x else Floatable x) pts))"
  by (simp_all add: demo_engine_def)

lemma parse_array_bad:
  "j \<in> set toks \<Longrightarrow> parse_value j = None \<Longrightarrow> parse_array toks = None"
  by (induction toks) (auto split: option.splits)

lemma parse_array_length: "parse_array toks = Some vs \<Longrightarrow> length vs = length toks"
  by (induction toks arbitrary: vs) (auto split: option.splits)

lemma parse_value_float: "parse_value (dumps_float p) = (if isFinite p then Some (Some p) else None)"
  by (cases p) simp_all

lemma parse_array_floats:
  "\<forall>p\<in>set pts. isFinite p \<Longrightarrow> parse_array (map dumps_float pts) = Some (map Some pts)"
  by (induction pts) (simp_all add: parse_value_float)

lemma parse_array_floats_Some:
  "parse_array (map dumps_float pts) = Some xv \<Longrightarrow> xv = map Some pts \<and> (\<forall>p\<in>set pts. isFinite p)"
  by (induction pts arbitrary: xv) (auto simp: parse_value_float split: option.splits if_splits)

lemma isFinite_iff: "isFinite p \<longleftrightarrow> (\<exists>r. p = Finite r)"
  by (cases p) simp_all

text \<open>The sample points.\<close>

lemma linspace_length: "linspace a b n = Inr pts \<Longrightarrow> int (length pts) = n"
  by (auto simp: linspace_def Let_def split: if_splits)

lemma linspace_last:
  assumes "linspace a b n = Inr pts" and "2 \<le> n"
  shows "last pts = Finite b"
proof -
  from assms obtain ys where p: "pts = ys[nat n - 1 := Finite b]" and l: "length ys = nat n"
    by (auto simp: linspace_def Let_def split: if_splits)
  from l assms(2) have "ys \<noteq> []" by auto
  with l show ?thesis
    by (simp add: p last_list_update)
qed

lemma first_point:
  assumes "is_double a" and "isFinite (dadd (dmul (Finite 0) v) (Finite a))"
  shows "dadd (dmul (Finite 0) v) (Finite a) = Finite a"
  using assms by (cases v) (simp_all add: round_double_0 is_double_def)

lemma linspace_hd:
  assumes "linspace a b n = Inr pts" and "1 \<le> n" and "is_double a" and "isFinite (hd pts)"
  shows "hd pts = Finite a"
proof -
  define d where "d = real_of_int (n - 1)"
  define delta where "delta = round_double (b - a)"
  define k where "k = nat n - 1"
  from assms(2) have n: "[0 ..< nat n] = 0 # [1 ..< nat n]"
    by (simp add: upt_rec)
  have "\<exists>v. hd pts = dadd (dmul (Finite 0) v) (Finite a)"
  proof (cases "n = 1")
    case True
    with assms(1) show ?thesis
      by (auto simp: linspace_def Let_def)
  next
    case False
    with assms(2) have n2: "1 < n" "0 < real_of_int (n - 1)" "nat n - 1 \<noteq> 0" by simp_all
    show ?thesis
    proof (cases "ddiv (round_double (b - a)) (real_of_int (n - 1)) = Finite 0")
      case True
      with assms(1) n2 have "pts = (map (\<lambda>v. dadd v (Finite a))
          (map (\<lambda>i. dmul (ddiv (Finite (real i)) (real_of_int (n - 1))) (round_double (b - a)))
             [0 ..< nat n]))[nat n - 1 := Finite b]"
        by (simp add: linspace_def Let_def)
      then have "hd pts = dadd (dmul (ddiv (Finite 0) (real_of_int (n - 1))) (round_double (b - a))) (Finite a)"
        using n2(3) by (cases "nat n - 1") (simp_all add: n)
      then show ?thesis by (auto simp: round_double_0)
    next
      case False
      with assms(1) n2 have "pts = (map (\<lambda>v. dadd v (Finite a))
          (map (\<lambda>i. dmul (Finite (real i)) (ddiv (round_double (b - a)) (real_of_int (n - 1))))
             [0 ..< nat n]))[nat n - 1 := Finite b]"
        by (simp add: linspace_def Let_def)
      then have "hd pts = dadd (dmul (Finite 0) (ddiv (round_double (b - a)) (real_of_int (n - 1)))) (Finite a)"
        using n2(3) by (cases "nat n - 1") (simp_all add: n)
      then show ?thesis by auto
    qed
  qed
  then obtain v where v: "hd pts = dadd (dmul (Finite 0) v) (Finite a)" by blast
  with assms(3,4) show ?thesis
    by (simp add: first_point)
qed

lemma not_real_value_absent:
  assumes "ready eng" and "sympify eng exprParsed = Inr expr" and "lambdify eng expr = Inr f"
    and "linspace xMin xMax points = Inr pts" and "f pts = Inr ys_raw"
    and "\<forall>p \<in> set pts. isFinite p"
    and "\<forall>v \<in> set ys_raw. v = NotFloatable \<or> (\<exists>r. v = Floatable (Finite r))"
  shows "\<exists>obj. computeXYWithPyodide eng exprParsed xMin xMax points = Returned obj \<and>
           obj_ys obj = map (\<lambda>v. case v of Floatable y \<Rightarrow> Some y | NotFloatable \<Rightarrow> None) ys_raw"
proof -
  from assms(7)
  have "parse_array (map float_or_None ys_raw) =
          Some (map (\<lambda>v. case v of Floatable y \<Rightarrow> Some y | NotFloatable \<Rightarrow> None) ys_raw)"
    by (induction ys_raw) auto
  moreover from assms(7)
  have "map sanitize (map (\<lambda>v. case v of Floatable y \<Rightarrow> Some y | NotFloatable \<Rightarrow> None) ys_raw) =
          map (\<lambda>v. case v of Floatable y \<Rightarrow> Some y | NotFloatable \<Rightarrow> None) ys_raw"
    by (induction ys_raw) auto
  ultimately show ?thesis using assms(1-6)
    by (simp add: computeXYWithPyodide_def py_sample_def JSON_parse_def parse_array_floats)
qed

lemma py_sample_Inr:
  assumes "py_sample eng exprParsed xMin xMax points = Inr payload"
  obtains expr f pts ys_raw where "sympify eng exprParsed = Inr expr" and "lambdify eng expr = Inr f"
    and "linspace xMin xMax points = Inr pts" and "f pts = Inr ys_raw"
    and "payload = \<lparr>json_xs = map dumps_float pts, json_ys = map float_or_None ys_raw\<rparr>"
proof (cases "sympify eng exprParsed")
  case (Inl e)
  with assms show ?thesis by (simp add: py_sample_def)
next
  case expr: (Inr expr)
  show ?thesis
  proof (cases "lambdify eng expr")
    case (Inl e)
    with assms expr show ?thesis by (simp add: py_sample_def)
  next
    case f: (Inr f)
    show ?thesis
    proof (cases "linspace xMin xMax points")
      case (Inl e)
      with assms expr f show ?thesis by (simp add: py_sample_def)
    next
      case pts: (Inr pts)
      show ?thesis
      proof (cases "f pts")
        case (Inl e)
        with assms expr f pts show ?thesis by (simp add: py_sample_def)
      next
        case (Inr ys_raw)
        with assms expr f pts that show ?thesis by (simp add: py_sample_def)
      qed
    qed
  qed
qed

lemma computeXY_Returned:
  assumes "computeXYWithPyodide eng exprParsed xMin xMax points = Returned obj"
  obtains expr f pts ys_raw yv where "ready eng"
    and "sympify eng exprParsed = Inr expr" and "lambdify eng expr = Inr f"
    and "linspace xMin xMax points = Inr pts" and "f pts = Inr ys_raw"
    and "\<forall>p \<in> set pts. isFinite p"
    and "parse_array (map float_or_None ys_raw) = Some yv"
    and "obj = \<lparr>obj_xs = map Some pts, obj_ys = map sanitize yv\<rparr>"
proof -
  from assms have r: "ready eng"
    by (cases "ready eng") (simp_all add: computeXYWithPyodide_def)
  from assms r obtain payload where p: "py_sample eng exprParsed xMin xMax points = Inr payload"
    by (cases "py_sample eng exprParsed xMin xMax points") (simp_all add: computeXYWithPyodide_def)
  from p obtain expr f pts ys_raw where e: "sympify eng exprParsed = Inr expr"
    "lambdify eng expr = Inr f" "linspace xMin xMax points = Inr pts" "f pts = Inr ys_raw"
    and pl: "payload = \<lparr>json_xs = map dumps_float pts, json_ys = map float_or_None ys_raw\<rparr>"
    by (rule py_sample_Inr)
  from assms r p obtain parsed where j: "JSON_parse payload = Inr parsed"
    and o: "obj = parsed\<lparr>obj_ys := map sanitize (obj_ys parsed)\<rparr>"
    by (cases "JSON_parse payload") (simp_all add: computeXYWithPyodide_def)
  from j pl obtain xv where x: "parse_array (map dumps_float pts) = Some xv"
    by (cases "parse_array (map dumps_float pts)") (simp_all add: JSON_parse_def)
  from parse_array_floats_Some [OF x] have xv: "xv = map Some pts" and fin: "\<forall>p \<in> set pts. isFinite p"
    by simp_all
  from j pl x obtain yv where y: "parse_array (map float_or_None ys_raw) = Some yv"
    and pa: "parsed = \<lparr>obj_xs = xv, obj_ys = yv\<rparr>"
    by (cases "parse_array (map float_or_None ys_raw)") (simp_all add: JSON_parse_def)
  from o pa xv have "obj = \<lparr>obj_xs = map Some pts, obj_ys = map sanitize yv\<rparr>"
    by simp
  with r e fin y that show ?thesis by blast
qed

lemma upt_numeral: "[i ..< numeral k] = (if i < numeral k then i # [Suc i ..< numeral k] else [])"
  by (rule upt_rec)

lemma finite_points: "\<forall>p \<in> set pts. isFinite p \<Longrightarrow> \<exists>rs. pts = map Finite rs"
proof (induction pts)
  case Nil
  show ?case by simp
next
  case (Cons p pts)
  then obtain rs where "pts = map Finite rs" by auto
  moreover from Cons.prems obtain r where "p = Finite r" by (auto simp: isFinite_iff)
  ultimately have "p # pts = map Finite (r # rs)" by simp
  then show ?case by (rule exI)
qed

lemma linspace_21: "linspace (-10) 10 21 = Inr (map (\<lambda>i. Finite (- 10 + real i)) [0 ..< 21])"
proof -
  have p: "dadd (dmul (Finite (real i)) (Finite 1)) (Finite (- 10)) = Finite (- 10 + real i)"
    if "i < 21" for i
  proof -
    from that have "i < 2 ^ 53" by simp
    then have 1: "dmul (Finite (real i)) (Finite 1) = Finite (real i)"
      by (simp add: round_double_nat)
    from that have "\<bar>int i - 10\<bar> < 2 ^ 53" by simp
    from round_double_of_int [OF this] have "round_double (real i + - 10) = Finite (real i + - 10)"
      by simp
    with 1 show ?thesis by simp
  qed
  have "(map (\<lambda>v. dadd v (Finite (- 10))) (map (\<lambda>i. dmul (Finite (real i)) (Finite 1)) [0 ..< 21]))
          [20 := Finite 10] = map (\<lambda>i. Finite (- 10 + real i)) [0 ..< 21]"
  proof (rule nth_equalityI)
    show "length ((map (\<lambda>v. dadd v (Finite (- 10))) (map (\<lambda>i. dmul (Finite (real i)) (Finite 1)) [0 ..< 21]))
          [20 := Finite 10]) = length (map (\<lambda>i. Finite (- 10 + real i)) [0 ..< 21])"
      by simp
  next
    fix i
    assume "i < length ((map (\<lambda>v. dadd v (Finite (- 10))) (map (\<lambda>i. dmul (Finite (real i)) (Finite 1)) [0 ..< 21]))
          [20 := Finite 10])"
    then have i: "i < 21" by simp
    show "(map (\<lambda>v. dadd v (Finite (- 10))) (map (\<lambda>i. dmul (Finite (real i)) (Finite 1)) [0 ..< 21]))
          [20 := Finite 10] ! i = map (\<lambda>i. Finite (- 10 + real i)) [0 ..< 21] ! i"
    proof (cases "i = 20")
      case True
      then show ?thesis by simp
    next
      case False
      with i p [OF i] show ?thesis by (simp add: nth_list_update del: upt_Suc)
    qed
  qed
  then show ?thesis
    by (simp add: linspace_def Let_def round_double_numeral)
qed

lemma one_value_per_pointD:
  assumes "one_value_per_point eng exprParsed xMin xMax points"
    and "sympify eng exprParsed = Inr expr" and "lambdify eng expr = Inr f"
    and "linspace xMin xMax points = Inr pts" and "f pts = Inr ys_raw"
  shows "length ys_raw = length pts"
  using assms by (simp add: one_value_per_point_def)

lemma linspace_3: "linspace (-10) 10 3 = Inr [Finite (-10), Finite 0, Finite 10]"
  by (simp add: linspace_def Let_def upt_numeral round_double_numeral round_double_0)

lemma linspace_1: "linspace (-10) 10 1 = Inr [Finite (-10)]"
  by (simp add: linspace_def Let_def upt_numeral round_double_numeral round_double_0)

lemma linspace_same: "linspace 1 1 2 = Inr [Finite 1, Finite 1]"
  by (simp add: linspace_def Let_def upt_numeral round_double_numeral round_double_0)

lemma round_small:
  "round_double (1 / 2 ^ 52) = Finite (1 / 2 ^ 52)"
  "round_double (1 / 2 ^ 53) = Finite (1 / 2 ^ 53)"
  "round_double (1 + 1 / 2 ^ 53) = Finite 1"
  "round_double (1 + 1 / 2 ^ 52) = Finite (1 + 1 / 2 ^ 52)"
     apply (subst round_double_binade [where e = "- 52"]; simp add: round_half_even_def Let_def power_int_minus)
    apply (subst round_double_binade [where e = "- 53"]; simp add: round_half_even_def Let_def power_int_minus)
   apply (subst round_double_binade [where e = 0]; simp add: round_half_even_def Let_def power_int_minus)
  apply (subst round_double_binade [where e = 0]; simp add: round_half_even_def Let_def power_int_minus)
  done

lemma linspace_close: "linspace 1 (1 + 1 / 2 ^ 52) 3 = Inr [Finite 1, Finite 1, Finite (1 + 1 / 2 ^ 52)]"
proof -
  have d: "round_double (1 + 1 / 2 ^ 52 - 1) = Finite (1 / 2 ^ 52)"
    using round_small(1) by simp
  have s: "ddiv (Finite (1 / 2 ^ 52)) (real_of_int (3 - 1)) = Finite (1 / 2 ^ 53)"
    using round_small(2) by simp
  have z: "Finite (1 / 2 ^ 53) \<noteq> Finite (0::real)" by simp
  have m: "dmul (Finite (real 0)) (Finite (1 / 2 ^ 53)) = Finite 0"
    "dmul (Finite (real 1)) (Finite (1 / 2 ^ 53)) = Finite (1 / 2 ^ 53)"
    using round_small(2) by (simp_all add: round_double_0)
  have a: "dadd (Finite 0) (Finite 1) = Finite 1"
    "dadd (Finite (1 / 2 ^ 53)) (Finite 1) = Finite 1"
    using round_small(3) by (simp_all add: round_double_numeral add.commute)
  have u: "[0 ..< nat 3] = [0, 1, 2]"
    by (simp add: upt_numeral)
  have "linspace 1 (1 + 1 / 2 ^ 52) 3 =
      Inr ((map (\<lambda>v. dadd v (Finite 1)) (map (\<lambda>i. dmul (Finite (real i)) (Finite (1 / 2 ^ 53))) [0, 1, 2]))
             [nat 3 - 1 := Finite (1 + 1 / 2 ^ 52)])"
    unfolding linspace_def Let_def d s u using z by simp
  also have "\<dots> = Inr [Finite 1, Finite 1, Finite (1 + 1 / 2 ^ 52)]"
    using m a by simp
  finally show ?thesis .
qed

section \<open>The claims about the bridge\<close>

text \<open>
  Claim C1 says that every exception of the engine, a failure to parse the expression
  included, comes back from \<^verbatim>\<open>runSympyCommand\<close> as a text that begins with
  \<open>Error:\<close>. The source converts what the command body raises, but \<^verbatim>\<open>sympify\<close> runs
  before the \<^verbatim>\<open>try\<close> block: when it raises, both versions of \<^verbatim>\<open>runSympyCommand\<close>
  are rejected with that Python exception, for every command the model follows.
\<close>

theorem sympify_fault_propagates:
  assumes "ready eng" and "sympify eng exprParsed = Inl e"
    and "commandBody command = Some b"
  shows "runSympyCommand eng exprParsed command = Threw (PythonError e) \<and>
         runSympyCommand_raw eng exprParsed command = Threw (PythonError e)"
  using assms
  by (simp add: runSympyCommand_def runSympyCommand_raw_def py_command_def py_command_raw_def)

theorem sympify_fault_propagates_witness:
  "ready demo_engine \<and> sympify demo_engine (js ''('') = Inl (PyException (js ''SympifyError'')) \<and>
   commandBody (js ''solve'') = Some (Act Solve) \<and>
   runSympyCommand demo_engine (js ''('') (js ''solve'') =
     Threw (PythonError (PyException (js ''SympifyError''))) \<and>
   runSympyCommand_raw demo_engine (js ''('') (js ''solve'') =
     Threw (PythonError (PyException (js ''SympifyError'')))"
proof -
  have r: "ready demo_engine" by (simp add: demo_engine_simps)
  have s: "sympify demo_engine (js ''('') = Inl (PyException (js ''SympifyError''))"
    by (simp add: demo_engine_simps)
  have c: "commandBody (js ''solve'') = Some (Act Solve)"
    by (simp add: commandBody_def)
  from sympify_fault_propagates [OF r s c] r s c show ?thesis by simp
qed




text \<open>
  Claim C10 says that for every expression the command \<open>graph\<close> makes
  \<^verbatim>\<open>runSympyCommand\<close> return the text \<open>GRAPH_COMMAND\<close>. As amended: it does so
  whenever the engine is ready and the expression parses, and that text does not begin
  with \<open>Error:\<close>; the second version returns it as both parts of its result.
\<close>

theorem graph_sentinel:
  assumes "ready eng" and "sympify eng exprParsed = Inr expr"
  shows "runSympyCommand eng exprParsed (js ''graph'') = Returned (js ''GRAPH_COMMAND'') \<and>
         runSympyCommand_raw eng exprParsed (js ''graph'') =
           Returned (js ''GRAPH_COMMAND'', RawText (js ''GRAPH_COMMAND'')) \<and>
         \<not> startsWith (js ''GRAPH_COMMAND'') (js ''Error:'')"
proof -
  have "commandBody (js ''graph'') = Some GraphSentinel"
    by (simp add: commandBody_def js_def)
  with assms show ?thesis
    by (simp add: runSympyCommand_def runSympyCommand_raw_def py_command_def py_command_raw_def
        try_body_def try_body_raw_def startsWith_def) (simp add: js_def)
qed

theorem graph_sentinel_witness:
  "ready demo_engine \<and> sympify demo_engine (js ''1/x'') = Inr (js ''1/x'') \<and>
   runSympyCommand demo_engine (js ''1/x'') (js ''graph'') = Returned (js ''GRAPH_COMMAND'') \<and>
   runSympyCommand_raw demo_engine (js ''1/x'') (js ''graph'') =
           Returned (js ''GRAPH_COMMAND'', RawText (js ''GRAPH_COMMAND''))"
proof -
  have r: "ready demo_engine" by (simp add: demo_engine_simps)
  have s: "sympify demo_engine (js ''1/x'') = Inr (js ''1/x'')"
    by (simp add: demo_engine_simps js_def)
  from graph_sentinel [OF r s] r s show ?thesis by simp
qed

text \<open>
  Against claim C10 as it is written: on the expression \<open>(\<close>, which does not parse, the
  command \<open>graph\<close> gives the exception of the engine and no text.
\<close>

theorem graph_sentinel_counterexample:
  "runSympyCommand demo_engine (js ''('') (js ''graph'') =
     Threw (PythonError (PyException (js ''SympifyError''))) \<and>
   runSympyCommand demo_engine (js ''('') (js ''graph'') \<noteq> Returned (js ''GRAPH_COMMAND'')"
  by (simp add: bridge_defs demo_engine_simps js_def)

section \<open>The claims about the sampler\<close>

text \<open>
  Claim C3 says that a value that is not finite becomes an absent entry and the sampling
  goes on, so that \<open>1/x\<close> over \<open>[-10, 10]\<close> with 21 points has one absent entry. In the
  source the Python script writes such a value as \<^verbatim>\<open>Infinity\<close>, \<^verbatim>\<open>-Infinity\<close> or
  \<^verbatim>\<open>NaN\<close>, and \<^verbatim>\<open>JSON.parse\<close> throws before the map that would make it
  \<^verbatim>\<open>null\<close>: whenever the compiled function returns such a value at a sample point,
  \<^verbatim>\<open>computeXYWithPyodide\<close> is rejected with a \<^verbatim>\<open>SyntaxError\<close>.
\<close>

theorem nonfinite_value_fails:
  assumes "ready eng" and "sympify eng exprParsed = Inr expr" and "lambdify eng expr = Inr f"
    and "linspace xMin xMax points = Inr pts" and "f pts = Inr ys_raw"
    and "Floatable PosInf \<in> set ys_raw \<or> Floatable NegInf \<in> set ys_raw \<or> Floatable NaN \<in> set ys_raw"
  shows "computeXYWithPyodide eng exprParsed xMin xMax points = Threw JSSyntaxError"
proof -
  from assms(6) obtain v where v: "v \<in> set ys_raw" "parse_value (float_or_None v) = None"
    by auto
  then have "float_or_None v \<in> set (map float_or_None ys_raw)" by simp
  from parse_array_bad [OF this v(2)] have "parse_array (map float_or_None ys_raw) = None" .
  with assms(1-5) show ?thesis
    by (simp add: computeXYWithPyodide_def py_sample_def JSON_parse_def split: option.splits)
qed

theorem nonfinite_value_fails_witness:
  "ready demo_engine \<and> sympify demo_engine (js ''1/x'') = Inr (js ''1/x'') \<and>
   linspace (-10) 10 21 = Inr (map (\<lambda>i. Finite (- 10 + real i)) [0 ..< 21]) \<and>
   Floatable PosInf \<in> set (map numpy_reciprocal (map (\<lambda>i. Finite (- 10 + real i)) [0 ..< 21])) \<and>
   computeXYWithPyodide demo_engine (js ''1/x'') (-10) 10 21 = Threw JSSyntaxError"
proof -
  let ?pts = "map (\<lambda>i. Finite (- 10 + real i)) [0 ..< 21]"
  let ?f = "\<lambda>pts. Inr (map (\<lambda>x. if js ''1/x'' = js ''1/x'' then numpy_reciprocal x
              else Floatable x) pts) :: py_exn + pyval list"
  have r: "ready demo_engine" by (simp add: demo_engine_sampler)
  have s: "sympify demo_engine (js ''1/x'') = Inr (js ''1/x'')"
    by (simp add: demo_engine_sampler js_def)
  have l: "lambdify demo_engine (js ''1/x'') = Inr ?f"
    by (simp add: demo_engine_sampler)
  have p: "linspace (-10) 10 21 = Inr ?pts" by (rule linspace_21)
  have f: "?f ?pts = Inr (map numpy_reciprocal ?pts)" by simp
  have "numpy_reciprocal (Finite (- 10 + real 10)) = Floatable PosInf"
    by simp
  moreover have "(10::nat) \<in> set [0 ..< 21]" by simp
  ultimately have m: "Floatable PosInf \<in> set (map numpy_reciprocal ?pts)"
    unfolding set_map image_image by (metis (no_types, lifting) imageI)
  then have "Floatable PosInf \<in> set (map numpy_reciprocal ?pts) \<or>
      Floatable NegInf \<in> set (map numpy_reciprocal ?pts) \<or>
      Floatable NaN \<in> set (map numpy_reciprocal ?pts)" by blast
  from nonfinite_value_fails [OF r s l p f this] r s p m show ?thesis by simp
qed

text \<open>
  Claim C4 says that for every count a successful sample has \<open>count\<close> entries in both
  sequences, with \<open>xs\<close> strictly increasing from \<open>xMin\<close> to \<open>xMax\<close>, both included. As
  amended: after a successful sample \<open>xs\<close> has \<open>count\<close> entries, all of them finite
  numbers; its first entry is \<open>xMin\<close> when \<open>count\<close> is at least 1 (\<open>xMin\<close> being a
  double, as every JavaScript number is), and its last entry is \<open>xMax\<close> when \<open>count\<close> is
  at least 2; and \<open>ys\<close> has \<open>count\<close> entries when the compiled function of the
  expression returns one value for each sample point. Nothing is said of the order of
  the entries in between.
\<close>

theorem sample_shape:
  assumes "computeXYWithPyodide eng exprParsed xMin xMax points = Returned obj"
  shows "int (length (obj_xs obj)) = points \<and>
         (\<exists>rs. obj_xs obj = map (\<lambda>r. Some (Finite r)) rs \<and>
               (1 \<le> points \<and> is_double xMin \<longrightarrow> hd rs = xMin) \<and>
               (2 \<le> points \<longrightarrow> last rs = xMax)) \<and>
         (one_value_per_point eng exprParsed xMin xMax points \<longrightarrow>
            int (length (obj_ys obj)) = points)"
proof -
  from assms obtain expr f pts ys_raw yv where
    e: "sympify eng exprParsed = Inr expr" and f: "lambdify eng expr = Inr f"
    and p: "linspace xMin xMax points = Inr pts" and y: "f pts = Inr ys_raw"
    and fin: "\<forall>p \<in> set pts. isFinite p"
    and a: "parse_array (map float_or_None ys_raw) = Some yv"
    and o: "obj = \<lparr>obj_xs = map Some pts, obj_ys = map sanitize yv\<rparr>"
    by (rule computeXY_Returned)
  from p have n: "int (length pts) = points" by (rule linspace_length)
  from fin obtain rs where rs: "pts = map Finite rs" using finite_points by blast
  have x: "obj_xs obj = map (\<lambda>r. Some (Finite r)) rs"
    using o rs by simp
  have h: "hd rs = xMin" if "1 \<le> points" and "is_double xMin"
  proof -
    from that(1) n have ne: "pts \<noteq> []" by auto
    with fin have "isFinite (hd pts)" by simp
    with p that have "hd pts = Finite xMin" by (simp add: linspace_hd)
    with ne rs show ?thesis by (simp add: hd_map)
  qed
  have l: "last rs = xMax" if "2 \<le> points"
  proof -
    from that n have ne: "pts \<noteq> []" by auto
    from p that have "last pts = Finite xMax" by (rule linspace_last)
    with ne rs show ?thesis by (simp add: last_map)
  qed
  have ys: "int (length (obj_ys obj)) = points"
    if "one_value_per_point eng exprParsed xMin xMax points"
  proof -
    from that e f p y have "length ys_raw = length pts" by (rule one_value_per_pointD)
    moreover from a have "length yv = length ys_raw" using parse_array_length by fastforce
    ultimately show ?thesis using o n by simp
  qed
  from x h l have "\<exists>rs. obj_xs obj = map (\<lambda>r. Some (Finite r)) rs \<and>
               (1 \<le> points \<and> is_double xMin \<longrightarrow> hd rs = xMin) \<and>
               (2 \<le> points \<longrightarrow> last rs = xMax)"
    by blast
  moreover from o n have "int (length (obj_xs obj)) = points" by simp
  ultimately show ?thesis using ys by blast
qed

theorem sample_shape_witness:
  "computeXYWithPyodide demo_engine (js ''x'') (-10) 10 3 =
     Returned \<lparr>obj_xs = [Some (Finite (-10)), Some (Finite 0), Some (Finite 10)],
               obj_ys = [Some (Finite (-10)), Some (Finite 0), Some (Finite 10)]\<rparr> \<and>
   is_double (-10) \<and>
   one_value_per_point demo_engine (js ''x'') (-10) 10 3 \<and>
   int (length [Some (Finite (-10)), Some (Finite 0), Some (Finite (10::real))]) = 3 \<and>
   (\<exists>rs. [Some (Finite (-10)), Some (Finite 0), Some (Finite (10::real))] =
            map (\<lambda>r. Some (Finite r)) rs \<and> hd rs = - 10 \<and> last rs = 10)"
proof -
  let ?obj = "\<lparr>obj_xs = [Some (Finite (-10)), Some (Finite 0), Some (Finite 10)],
               obj_ys = [Some (Finite (-10)), Some (Finite 0), Some (Finite 10)]\<rparr>"
  have c: "computeXYWithPyodide demo_engine (js ''x'') (-10) 10 3 = Returned ?obj"
    by (simp add: sampler_defs demo_engine_sampler js_def linspace_3)
  have d: "is_double (-10)"
    by (simp add: is_double_numeral)
  have h: "one_value_per_point demo_engine (js ''x'') (-10) 10 3"
    by (simp add: one_value_per_point_def demo_engine_sampler js_def linspace_3)
  from sample_shape [OF c] d h
  have "int (length (obj_xs ?obj)) = 3 \<and>
         (\<exists>rs. obj_xs ?obj = map (\<lambda>r. Some (Finite r)) rs \<and> hd rs = - 10 \<and> last rs = 10) \<and>
         int (length (obj_ys ?obj)) = 3"
    by simp
  with c d h show ?thesis by simp
qed

text \<open>
  Against claim C4 as it is written: with one sample point \<open>xs\<close> is \<open>xMin\<close> alone and
  \<open>xMax\<close> is not in it; over the interval from 1 to 1, two points are equal; and over
  the interval from 1 to the next double, \<open>1 + 1 / 2 ^ 52\<close>, the middle one of three
  points is rounded to 1, so that \<open>xs\<close> is not strictly increasing although
  \<open>xMin < xMax\<close>.
\<close>

theorem sample_shape_counterexample:
  "computeXYWithPyodide demo_engine (js ''x'') (-10) 10 1 =
     Returned \<lparr>obj_xs = [Some (Finite (-10))], obj_ys = [Some (Finite (-10))]\<rparr> \<and>
   Some (Finite 10) \<notin> set [Some (Finite (-10))] \<and>
   computeXYWithPyodide demo_engine (js ''x'') 1 1 2 =
     Returned \<lparr>obj_xs = [Some (Finite 1), Some (Finite 1)],
               obj_ys = [Some (Finite 1), Some (Finite 1)]\<rparr> \<and>
   is_double (1 + 1 / 2 ^ 52) \<and> (1::real) < 1 + 1 / 2 ^ 52 \<and>
   computeXYWithPyodide demo_engine (js ''x'') 1 (1 + 1 / 2 ^ 52) 3 =
     Returned \<lparr>obj_xs = [Some (Finite 1), Some (Finite 1), Some (Finite (1 + 1 / 2 ^ 52))],
               obj_ys = [Some (Finite 1), Some (Finite 1), Some (Finite (1 + 1 / 2 ^ 52))]\<rparr> \<and>
   \<not> sorted_wrt (<) [1, 1, 1 + 1 / 2 ^ 52 :: real]"
proof -
  have 1: "computeXYWithPyodide demo_engine (js ''x'') (-10) 10 1 =
     Returned \<lparr>obj_xs = [Some (Finite (-10))], obj_ys = [Some (Finite (-10))]\<rparr>"
    by (simp add: sampler_defs demo_engine_sampler js_def linspace_1)
  have 2: "computeXYWithPyodide demo_engine (js ''x'') 1 1 2 =
     Returned \<lparr>obj_xs = [Some (Finite 1), Some (Finite 1)],
               obj_ys = [Some (Finite 1), Some (Finite 1)]\<rparr>"
    by (simp add: sampler_defs demo_engine_sampler js_def linspace_same)
  have 3: "computeXYWithPyodide demo_engine (js ''x'') 1 (1 + 1 / 2 ^ 52) 3 =
     Returned \<lparr>obj_xs = [Some (Finite 1), Some (Finite 1), Some (Finite (1 + 1 / 2 ^ 52))],
               obj_ys = [Some (Finite 1), Some (Finite 1), Some (Finite (1 + 1 / 2 ^ 52))]\<rparr>"
    by (simp only: sampler_defs demo_engine_sampler linspace_close) (simp add: js_def)
  have 4: "is_double (1 + 1 / 2 ^ 52)"
    unfolding is_double_def by (rule round_small(4))
  from 1 2 3 4 show ?thesis by simp
qed

end
